theory Spec2Isabelle
  imports Main
begin

section \<open>Characters, input streams and scratch buffers\<close>

text \<open>
  The C sources read a \<^verbatim>\<open>FILE*\<close> one byte at a time with \<^verbatim>\<open>fgetc\<close>. The stream
  is the list of bytes not read yet; \<^verbatim>\<open>fgetc\<close> returns the next byte, or \<^verbatim>\<open>EOF\<close>
  (\<open>None\<close>) on an exhausted stream, which it keeps returning on every later call.
  Memory allocation is taken to succeed.
\<close>

definition XML_BUFFER_LENGTH :: nat where
  "XML_BUFFER_LENGTH = 200"

definition fgetc :: "char list \<Rightarrow> char option \<times> char list" where
  "fgetc file = (case file of [] \<Rightarrow> (None, []) | c # cs \<Rightarrow> (Some c, cs))"

text \<open>The cast \<^verbatim>\<open>(char)charBuffer\<close> of an \<^verbatim>\<open>int\<close> read by \<^verbatim>\<open>fgetc\<close>: \<^verbatim>\<open>EOF\<close> is \<open>-1\<close>,
  whose low byte is \<open>0xFF\<close>.\<close>

definition to_char :: "char option \<Rightarrow> char" where
  "to_char charBuffer = (case charBuffer of None \<Rightarrow> CHR 0xFF | Some c \<Rightarrow> c)"

text \<open>
  A scratch buffer \<^verbatim>\<open>char strBuffer[XML_BUFFER_LENGTH]\<close> is a list of that length. A
  store at an index past its end is undefined behaviour in C; the model makes it the
  outcome \<open>OutOfBounds\<close>. The cells of a fresh buffer are indeterminate in C: every
  function below writes cells \<open>0..i-1\<close> and the terminator at \<open>i\<close> before the buffer is
  read as a string, so the initial content is never observed.
\<close>

datatype error =
    MalformedTag
  | UnexpectedEndOfInput
  | BufferOverflow
  | UnbalancedTags
  | OutOfBounds
  | InvalidPointer
  | Uninitialised
  | Diverges

definition new_buffer :: "char list" where
  "new_buffer = replicate XML_BUFFER_LENGTH (CHR 0x00)"

definition store :: "nat \<Rightarrow> char \<Rightarrow> char list \<Rightarrow> char list option" where
  "store i c strBuffer = (if i < length strBuffer then Some (strBuffer[i := c]) else None)"

text \<open>The string a \<^verbatim>\<open>char*\<close> denotes: the bytes before the first NUL (what \<^verbatim>\<open>strlen\<close>,
  \<^verbatim>\<open>strcpy\<close> and \<^verbatim>\<open>strcmp\<close> see).\<close>

definition c_str :: "char list \<Rightarrow> string" where
  "c_str strBuffer = takeWhile (\<lambda>c. c \<noteq> CHR 0x00) strBuffer"


section \<open>Attributes (attribute.c)\<close>

text \<open>\<^verbatim>\<open>struct XML_Attribute { char* name; char* value; struct XML_Attribute* next; }\<close>.
  A pointer to an attribute is an \<open>XML_Attribute option\<close>, \<open>None\<close> for \<^verbatim>\<open>NULL\<close>; an
  attribute is owned by exactly one tag or node at any time.\<close>

datatype XML_Attribute =
  XML_Attribute (a_name: "string option") (a_value: "string option") (a_next: "XML_Attribute option")

definition createXMLAttribute :: XML_Attribute where
  "createXMLAttribute = XML_Attribute None None None"

fun setXMLAttributeName :: "string \<Rightarrow> XML_Attribute \<Rightarrow> XML_Attribute" where
  "setXMLAttributeName name (XML_Attribute n v nx) = XML_Attribute (Some name) v nx"

fun setXMLAttributeValue :: "string \<Rightarrow> XML_Attribute \<Rightarrow> XML_Attribute" where
  "setXMLAttributeValue val (XML_Attribute n v nx) = XML_Attribute n (Some val) nx"

fun set_a_next :: "XML_Attribute option \<Rightarrow> XML_Attribute \<Rightarrow> XML_Attribute" where
  "set_a_next p (XML_Attribute n v nx) = XML_Attribute n v p"

text \<open>
  The two accumulation loops of \<^verbatim>\<open>readXMLAttribute\<close> (attribute.c:277 and 298) differ
  only in the character that stops them (\<open>=\<close>, then the double quote):
  \<^verbatim>\<open>while(charBuffer != stop) { strBuffer[i] = (char)charBuffer; i++; charBuffer = fgetc(file); }\<close>
  Neither tests for \<^verbatim>\<open>EOF\<close> nor bounds \<open>i\<close>: at end of input the loop keeps storing
  \<open>0xFF\<close> until the store leaves the buffer.
\<close>

function attr_loop ::
  "char \<Rightarrow> char option \<Rightarrow> nat \<Rightarrow> char list \<Rightarrow> char list
     \<Rightarrow> (error + nat \<times> char list) \<times> char list" where
  "attr_loop stop charBuffer i strBuffer file =
     (if charBuffer \<noteq> Some stop then
        (case store i (to_char charBuffer) strBuffer of
           None \<Rightarrow> (Inl OutOfBounds, file)
         | Some strBuffer' \<Rightarrow>
             (case fgetc file of (c, file') \<Rightarrow> attr_loop stop c (i + 1) strBuffer' file'))
      else (Inr (i, strBuffer), file))"
  by pat_completeness auto
termination
  by (relation "measure (\<lambda>(stop, c, i, strBuffer, file). length strBuffer - i)")
     (auto simp: store_def split: if_splits)

declare attr_loop.simps [simp del]

text \<open>\<^verbatim>\<open>readXMLAttribute\<close> (attribute.c:266). The result \<open>Inl MalformedTag\<close> is the
  \<^verbatim>\<open>return NULL\<close> after \<^verbatim>\<open>logError("Badly parsed XML file.")\<close>.\<close>

definition readXMLAttribute :: "char list \<Rightarrow> (error + XML_Attribute) \<times> char list" where
  "readXMLAttribute file =
     (let attr = createXMLAttribute in
      case fgetc file of (charBuffer, file1) \<Rightarrow>
      case attr_loop (CHR ''='') charBuffer 0 new_buffer file1 of
        (Inl e, file2) \<Rightarrow> (Inl e, file2)
      | (Inr (i, strBuffer), file2) \<Rightarrow>
      case store i (CHR 0x00) strBuffer of
        None \<Rightarrow> (Inl OutOfBounds, file2)
      | Some strBuffer \<Rightarrow>
      case fgetc file2 of (q, file3) \<Rightarrow>
      if q \<noteq> Some (CHR 0x22) then (Inl MalformedTag, file3)
      else
        let attr = setXMLAttributeName (c_str strBuffer) attr in
        case fgetc file3 of (charBuffer, file4) \<Rightarrow>
        case attr_loop (CHR 0x22) charBuffer 0 strBuffer file4 of
          (Inl e, file5) \<Rightarrow> (Inl e, file5)
        | (Inr (i, strBuffer), file5) \<Rightarrow>
        case store i (CHR 0x00) strBuffer of
          None \<Rightarrow> (Inl OutOfBounds, file5)
        | Some strBuffer \<Rightarrow>
            (Inr (setXMLAttributeValue (c_str strBuffer) attr), file5))"


section \<open>Tags (tag.c)\<close>

datatype XML_TagType = OPENING | CLOSING | UNIQUE | UNKNOWN

record XML_Tag =
  t_name :: "string option"
  t_attr :: "XML_Attribute option"
  t_type :: XML_TagType

definition createXMLTag :: XML_Tag where
  "createXMLTag = \<lparr>t_name = None, t_attr = None, t_type = UNKNOWN\<rparr>"

definition setXMLTagName :: "string \<Rightarrow> XML_Tag \<Rightarrow> XML_Tag" where
  "setXMLTagName name tag = tag\<lparr>t_name := Some name\<rparr>"

text \<open>\<^verbatim>\<open>addAttributeToXMLTag\<close> (tag.c:207): a \<^verbatim>\<open>NULL\<close> attribute is only logged; the
  first attribute is stored as it is, a later one is linked in front of the list.\<close>

definition addAttributeToXMLTag :: "XML_Attribute option \<Rightarrow> XML_Tag \<Rightarrow> XML_Tag" where
  "addAttributeToXMLTag attr tag =
     (case attr of
        None \<Rightarrow> tag
      | Some a \<Rightarrow>
          if t_attr tag = None then tag\<lparr>t_attr := Some a\<rparr>
          else tag\<lparr>t_attr := Some (set_a_next (t_attr tag) a)\<rparr>)"

text \<open>\<^verbatim>\<open>deleteAttributeFromXMLTag\<close> (tag.c:235): unlink and return the head.\<close>

definition deleteAttributeFromXMLTag :: "XML_Tag \<Rightarrow> XML_Attribute option \<times> XML_Tag" where
  "deleteAttributeFromXMLTag tag =
     (case t_attr tag of
        None \<Rightarrow> (None, tag)
      | Some deleted \<Rightarrow> (Some (set_a_next None deleted), tag\<lparr>t_attr := a_next deleted\<rparr>))"

text \<open>The name loop of \<^verbatim>\<open>readXMLTag\<close> (tag.c:293-306): store, read, increment, then
  the capacity test.\<close>

function tag_name_loop ::
  "char option \<Rightarrow> nat \<Rightarrow> char list \<Rightarrow> char list
     \<Rightarrow> (error + char option \<times> nat \<times> char list) \<times> char list" where
  "tag_name_loop charBuffer i strBuffer file =
     (if charBuffer \<noteq> Some (CHR '' '') \<and> charBuffer \<noteq> Some (CHR ''>'') \<and>
         charBuffer \<noteq> Some (CHR ''/'') \<and> charBuffer \<noteq> None then
        (case store i (to_char charBuffer) strBuffer of
           None \<Rightarrow> (Inl OutOfBounds, file)
         | Some strBuffer' \<Rightarrow>
             (case fgetc file of (c, file') \<Rightarrow>
                if i + 1 \<ge> XML_BUFFER_LENGTH then (Inl BufferOverflow, file')
                else tag_name_loop c (i + 1) strBuffer' file'))
      else (Inr (charBuffer, i, strBuffer), file))"
  by pat_completeness auto
termination
  by (relation "measure (\<lambda>(c, i, strBuffer, file). XML_BUFFER_LENGTH - i)") auto

declare tag_name_loop.simps [simp del]

text \<open>The attribute loop of \<^verbatim>\<open>readXMLTag\<close> (tag.c:361-364):
  \<^verbatim>\<open>while(charBuffer == ' ') { addAttributeToXMLTag(readXMLAttribute(file), tag); charBuffer = fgetc(file); }\<close>
  A \<^verbatim>\<open>NULL\<close> from \<^verbatim>\<open>readXMLAttribute\<close> is not tested: the loop goes on.\<close>

lemma fgetc_length: "fgetc fl = (c, fl') \<Longrightarrow> length fl' \<le> length fl"
  by (auto simp: fgetc_def split: list.splits)

lemma fgetc_Some_length: "fgetc fl = (Some c, fl') \<Longrightarrow> length fl' < length fl"
  by (auto simp: fgetc_def split: list.splits)

lemma attr_loop_length:
  "attr_loop stop c i buf fl = (r, fl') \<Longrightarrow> length fl' \<le> length fl"
proof (induction stop c i buf fl rule: attr_loop.induct)
  case (1 stop charBuffer i strBuffer fl)
  show ?case
  proof (cases "charBuffer \<noteq> Some stop")
    case False
    with "1.prems" show ?thesis by (simp add: attr_loop.simps)
  next
    case True
    show ?thesis
    proof (cases "store i (to_char charBuffer) strBuffer")
      case None
      with True "1.prems" show ?thesis by (simp add: attr_loop.simps)
    next
      case (Some b)
      obtain c f where cf: "fgetc fl = (c, f)" by (cases "fgetc fl")
      with True Some "1.prems" have "attr_loop stop c (i + 1) b f = (r, fl')"
        by (simp add: attr_loop.simps)
      with "1.IH" [OF True Some cf [symmetric]] have "length fl' \<le> length f" by simp
      moreover from cf have "length f \<le> length fl" by (rule fgetc_length)
      ultimately show ?thesis by simp
    qed
  qed
qed

lemma attr_loop_error:
  "attr_loop stop c i buf fl = (Inl e, fl') \<Longrightarrow> e = OutOfBounds"
proof (induction stop c i buf fl rule: attr_loop.induct)
  case (1 stop charBuffer i strBuffer fl)
  show ?case
  proof (cases "charBuffer \<noteq> Some stop")
    case False
    with "1.prems" show ?thesis by (simp add: attr_loop.simps)
  next
    case True
    show ?thesis
    proof (cases "store i (to_char charBuffer) strBuffer")
      case None
      with True "1.prems" show ?thesis by (simp add: attr_loop.simps)
    next
      case (Some b)
      obtain c f where cf: "fgetc fl = (c, f)" by (cases "fgetc fl")
      with True Some "1.prems" have "attr_loop stop c (i + 1) b f = (Inl e, fl')"
        by (simp add: attr_loop.simps)
      with "1.IH" [OF True Some cf [symmetric]] show ?thesis by simp
    qed
  qed
qed

text \<open>A loop that ran and came back normally has read its stop character.\<close>

lemma attr_loop_consumes:
  "attr_loop stop c i buf fl = (Inr x, fl') \<Longrightarrow> c \<noteq> Some stop \<Longrightarrow> length fl' < length fl"
proof (induction stop c i buf fl rule: attr_loop.induct)
  case (1 stop charBuffer i strBuffer fl)
  from "1.prems" obtain b where b: "store i (to_char charBuffer) strBuffer = Some b"
    by (cases "store i (to_char charBuffer) strBuffer") (auto simp: attr_loop.simps)
  obtain c f where cf: "fgetc fl = (c, f)" by (cases "fgetc fl")
  with b "1.prems" have rec: "attr_loop stop c (i + 1) b f = (Inr x, fl')"
    by (simp add: attr_loop.simps)
  show ?case
  proof (cases "c = Some stop")
    case True
    with rec have "fl' = f" by (simp add: attr_loop.simps)
    with cf True show ?thesis by (simp add: fgetc_Some_length)
  next
    case False
    with "1.IH" [OF "1.prems"(2) b cf [symmetric] rec] have "length fl' < length f" by simp
    moreover from cf have "length f \<le> length fl" by (rule fgetc_length)
    ultimately show ?thesis by simp
  qed
qed

lemma readXMLAttribute_length:
  assumes "readXMLAttribute fl = (r, fl')" and "r \<noteq> Inl OutOfBounds"
  shows "length fl' < length fl"
proof -
  obtain c f1 where f1: "fgetc fl = (c, f1)" by (cases "fgetc fl")
  obtain r1 f2 where l1: "attr_loop (CHR ''='') c 0 new_buffer f1 = (r1, f2)"
    by (cases "attr_loop (CHR ''='') c 0 new_buffer f1")
  show ?thesis
  proof (cases r1)
    case (Inl e)
    with l1 have "e = OutOfBounds" by (simp add: attr_loop_error)
    with assms f1 l1 Inl show ?thesis by (simp add: readXMLAttribute_def)
  next
    case (Inr p)
    have lt: "length f2 < length fl"
    proof (cases "c = Some (CHR ''='')")
      case True
      with f1 have "length f1 < length fl" by (simp add: fgetc_Some_length)
      moreover have "length f2 \<le> length f1" using l1 by (rule attr_loop_length)
      ultimately show ?thesis by simp
    next
      case False
      with l1 Inr have "length f2 < length f1" by (simp add: attr_loop_consumes)
      moreover have "length f1 \<le> length fl" using f1 by (rule fgetc_length)
      ultimately show ?thesis by simp
    qed
    obtain i b where p: "p = (i, b)" by (cases p)
    show ?thesis
    proof (cases "store i (CHR 0x00) b")
      case None
      with assms f1 l1 Inr p show ?thesis by (simp add: readXMLAttribute_def)
    next
      case (Some b')
      obtain q f3 where f3: "fgetc f2 = (q, f3)" by (cases "fgetc f2")
      have le3: "length f3 \<le> length f2" using f3 by (rule fgetc_length)
      show ?thesis
      proof (cases "q = Some (CHR 0x22)")
        case False
        with assms f1 l1 Inr p Some f3 have "fl' = f3"
          by (simp add: readXMLAttribute_def)
        with lt le3 show ?thesis by simp
      next
        case q: True
        obtain c4 f4 where f4: "fgetc f3 = (c4, f4)" by (cases "fgetc f3")
        obtain r5 f5 where l5: "attr_loop (CHR 0x22) c4 0 b' f4 = (r5, f5)"
          by (cases "attr_loop (CHR 0x22) c4 0 b' f4")
        have "length f5 \<le> length f4" using l5 by (rule attr_loop_length)
        moreover have "length f4 \<le> length f3" using f4 by (rule fgetc_length)
        moreover from assms f1 l1 Inr p Some f3 q f4 l5 have "fl' = f5"
          by (auto simp: readXMLAttribute_def Let_def split: sum.splits option.splits)
        ultimately show ?thesis using lt le3 by simp
      qed
    qed
  qed
qed


function tag_attr_loop ::
  "char option \<Rightarrow> XML_Tag \<Rightarrow> char list \<Rightarrow> (error + char option \<times> XML_Tag) \<times> char list" where
  "tag_attr_loop charBuffer tag file =
     (if charBuffer = Some (CHR '' '') then
        (case readXMLAttribute file of (r, file1) \<Rightarrow>
           if r = Inl OutOfBounds then (Inl OutOfBounds, file1)
           else
             (case fgetc file1 of (c, file2) \<Rightarrow>
                tag_attr_loop c
                  (addAttributeToXMLTag (case r of Inl e \<Rightarrow> None | Inr attr \<Rightarrow> Some attr) tag)
                  file2))
      else (Inr (charBuffer, tag), file))"
  by pat_completeness auto
termination
proof (relation "measure (\<lambda>(c, tag, fl). length fl)", goal_cases)
  case 1
  show ?case by simp
next
  case (2 charBuffer tag fl r file1 c file2)
  from 2 have "length file1 < length fl" by (metis readXMLAttribute_length)
  moreover from 2 have "length file2 \<le> length file1" by (metis fgetc_length)
  ultimately show ?case by simp
qed

declare tag_attr_loop.simps [simp del]

text \<open>The \<^verbatim>\<open>switch\<close> on the character after the name (tag.c:313-357).\<close>

definition after_name ::
  "char option \<Rightarrow> XML_Tag \<Rightarrow> char list \<Rightarrow> (error + char option \<times> XML_Tag) \<times> char list" where
  "after_name charBuffer tag file =
     (if charBuffer = Some (CHR ''>'') then
        (Inr (charBuffer, if t_type tag = UNKNOWN then tag\<lparr>t_type := OPENING\<rparr> else tag), file)
      else if charBuffer = Some (CHR ''/'') then
        (if t_type tag = UNKNOWN then
           (case fgetc file of (c, file') \<Rightarrow>
              if c \<noteq> Some (CHR ''>'') then (Inl MalformedTag, file')
              else (Inr (c, tag\<lparr>t_type := UNIQUE\<rparr>), file'))
         else (Inl MalformedTag, file))
      else if charBuffer = Some (CHR '' '') then (Inr (charBuffer, tag), file)
      else if charBuffer = None then (Inl UnexpectedEndOfInput, file)
      else (Inl MalformedTag, file))"

text \<open>The attributes of a tag whose type is still \<^verbatim>\<open>UNKNOWN\<close> (tag.c:360-373).\<close>

definition after_attributes ::
  "char option \<Rightarrow> XML_Tag \<Rightarrow> char list \<Rightarrow> (error + char option \<times> XML_Tag) \<times> char list" where
  "after_attributes charBuffer tag file =
     (if t_type tag = UNKNOWN then
        (case tag_attr_loop charBuffer tag file of
           (Inl e, file1) \<Rightarrow> (Inl e, file1)
         | (Inr (charBuffer, tag), file1) \<Rightarrow>
             if charBuffer = Some (CHR ''>'') then (Inr (charBuffer, tag\<lparr>t_type := OPENING\<rparr>), file1)
             else if charBuffer = Some (CHR ''/'') then
               (case fgetc file1 of (c, file2) \<Rightarrow> (Inr (c, tag\<lparr>t_type := UNIQUE\<rparr>), file2))
             else (Inr (charBuffer, tag), file1))
      else (Inr (charBuffer, tag), file))"

text \<open>\<^verbatim>\<open>readXMLTag\<close> (tag.c:265). Each \<open>Inl\<close> is a \<^verbatim>\<open>return NULL\<close>, named by the
  diagnostic logged before it: "XML reading buffer strBuffer is full" is
  \<open>BufferOverflow\<close>, "Reached EOF while reading XML tag" is \<open>UnexpectedEndOfInput\<close>,
  "Badly parsed XML file.", "XML parser found a closing unique tag !" and "Unknown
  character after tag's name." are \<open>MalformedTag\<close>.\<close>

definition readXMLTag :: "char list \<Rightarrow> (error + XML_Tag) \<times> char list" where
  "readXMLTag file =
     (let tag = createXMLTag in
      case fgetc file of (charBuffer, file) \<Rightarrow>
      case (if charBuffer = Some (CHR ''<'') then fgetc file else (charBuffer, file)) of
        (charBuffer, file) \<Rightarrow>
      case (if charBuffer = Some (CHR ''/'') then Some (tag\<lparr>t_type := CLOSING\<rparr>, 0, new_buffer)
            else map_option (\<lambda>b. (tag, 1, b)) (store 0 (to_char charBuffer) new_buffer)) of
        None \<Rightarrow> (Inl OutOfBounds, file)
      | Some (tag, i, strBuffer) \<Rightarrow>
      case fgetc file of (charBuffer, file) \<Rightarrow>
      case tag_name_loop charBuffer i strBuffer file of
        (Inl e, file) \<Rightarrow> (Inl e, file)
      | (Inr (charBuffer, i, strBuffer), file) \<Rightarrow>
      case store i (CHR 0x00) strBuffer of
        None \<Rightarrow> (Inl OutOfBounds, file)
      | Some strBuffer \<Rightarrow>
      case after_name charBuffer (setXMLTagName (c_str strBuffer) tag) file of
        (Inl e, file) \<Rightarrow> (Inl e, file)
      | (Inr (charBuffer, tag), file) \<Rightarrow>
      case after_attributes charBuffer tag file of
        (Inl e, file) \<Rightarrow> (Inl e, file)
      | (Inr (charBuffer, tag), file) \<Rightarrow>
      if charBuffer \<noteq> Some (CHR ''>'') then (Inl MalformedTag, file)
      else (Inr tag, file))"


section \<open>Nodes (node.c)\<close>

text \<open>
  Nodes point at each other (parent, siblings, children), so they live in a store: a
  heap is the list of the nodes allocated so far, the address of a node is its index,
  and a \<^verbatim>\<open>XML_Node*\<close> is a \<open>nat option\<close> with \<open>None\<close> for \<^verbatim>\<open>NULL\<close>. \<^verbatim>\<open>createXMLNode\<close>
  allocates at the end. The children count \<^verbatim>\<open>cc\<close> is a C \<^verbatim>\<open>int\<close>; it is modelled
  without overflow (a node would need \<open>2^31\<close> children to reach it).
\<close>

record XML_Node =
  n_name :: "string option"
  n_value :: "string option"
  n_attr :: "XML_Attribute option"
  n_parent :: "nat option"
  n_previous :: "nat option"
  n_next :: "nat option"
  n_first :: "nat option"
  n_current :: "nat option"
  n_last :: "nat option"
  n_cc :: int

type_synonym heap = "XML_Node list"

definition initXMLNode :: XML_Node where
  "initXMLNode = \<lparr>n_name = None, n_value = None, n_attr = None, n_parent = None,
     n_previous = None, n_next = None, n_first = None, n_current = None, n_last = None,
     n_cc = 0\<rparr>"

definition createXMLNode :: "heap \<Rightarrow> nat \<times> heap" where
  "createXMLNode h = (length h, h @ [initXMLNode])"

definition setXMLNodeName :: "string \<Rightarrow> XML_Node \<Rightarrow> XML_Node" where
  "setXMLNodeName name n = n\<lparr>n_name := Some name\<rparr>"

definition setXMLNodeValue :: "string \<Rightarrow> XML_Node \<Rightarrow> XML_Node" where
  "setXMLNodeValue val n = n\<lparr>n_value := Some val\<rparr>"

text \<open>\<^verbatim>\<open>addAttributeToXMLNode\<close> (node.c:237), for the attribute its only caller passes,
  the one \<^verbatim>\<open>deleteAttributeFromXMLTag\<close> has just unlinked (never \<^verbatim>\<open>NULL\<close> there).\<close>

definition addAttributeToXMLNode :: "XML_Attribute \<Rightarrow> XML_Node \<Rightarrow> XML_Node" where
  "addAttributeToXMLNode attr n =
     (if n_attr n = None then n\<lparr>n_attr := Some attr\<rparr>
      else n\<lparr>n_attr := Some (set_a_next (n_attr n) attr)\<rparr>)"

text \<open>The attributes reached from a pointer by following \<^verbatim>\<open>next\<close>, as the list of
  their (name, value) pairs, head first.\<close>

fun attr_list :: "XML_Attribute \<Rightarrow> (string option \<times> string option) list" where
  "attr_list (XML_Attribute n v nx) =
     (n, v) # (case nx of None \<Rightarrow> [] | Some a \<Rightarrow> attr_list a)"

definition attrs :: "XML_Attribute option \<Rightarrow> (string option \<times> string option) list" where
  "attrs p = (case p of None \<Rightarrow> [] | Some a \<Rightarrow> attr_list a)"

lemma attrs_simps [simp]:
  "attrs None = []"
  "attrs (Some (XML_Attribute n v nx)) = (n, v) # attrs nx"
  by (simp_all add: attrs_def)

lemma attrs_set_a_next [simp]: "attrs (Some (set_a_next p a)) = (a_name a, a_value a) # attrs p"
  by (cases a) simp

text \<open>The loop of \<^verbatim>\<open>initXMLNodeFromXMLTag\<close> (node.c:378):
  \<^verbatim>\<open>while(tag->attr != NULL) addAttributeToXMLNode(deleteAttributeFromXMLTag(tag), n);\<close>\<close>

function move_attributes :: "XML_Tag \<Rightarrow> XML_Node \<Rightarrow> XML_Node" where
  "move_attributes tag n =
     (if t_attr tag \<noteq> None then
        (case deleteAttributeFromXMLTag tag of
           (None, tag') \<Rightarrow> n
         | (Some attr, tag') \<Rightarrow> move_attributes tag' (addAttributeToXMLNode attr n))
      else n)"
  by pat_completeness auto
termination
proof (relation "measure (\<lambda>(tag, n). length (attrs (t_attr tag)))", goal_cases)
  case 1
  show ?case by simp
next
  case (2 tag n x y attr)
  then obtain d where d: "t_attr tag = Some d" by auto
  with 2 have "y = tag\<lparr>t_attr := a_next d\<rparr>"
    by (simp add: deleteAttributeFromXMLTag_def)
  with d show ?case by (cases d) simp
qed

declare move_attributes.simps [simp del]

text \<open>\<^verbatim>\<open>initXMLNodeFromXMLTag\<close> (node.c:367): reset the node, copy the name, move the
  attributes. With a \<^verbatim>\<open>NULL\<close> tag name \<^verbatim>\<open>setXMLNodeName\<close> would call \<^verbatim>\<open>strlen(NULL)\<close>;
  a tag returned by \<^verbatim>\<open>readXMLTag\<close> always has a name, and the model leaves the name
  unset otherwise.\<close>

definition initXMLNodeFromXMLTag :: "nat \<Rightarrow> XML_Tag \<Rightarrow> heap \<Rightarrow> heap" where
  "initXMLNodeFromXMLTag n tag h =
     h[n := move_attributes tag
        (case t_name tag of None \<Rightarrow> initXMLNode | Some name \<Rightarrow> setXMLNodeName name initXMLNode)]"

text \<open>\<^verbatim>\<open>addXMLNodeToParent\<close> (node.c:287), statement by statement. The first four
  branches only log a diagnostic.\<close>

definition addXMLNodeToParent :: "nat option \<Rightarrow> nat option \<Rightarrow> heap \<Rightarrow> heap" where
  "addXMLNodeToParent parent child h =
     (case parent of None \<Rightarrow> h | Some p \<Rightarrow>
      case child of None \<Rightarrow> h | Some c \<Rightarrow>
      if n_parent (h ! c) \<noteq> None then h
      else if n_previous (h ! c) \<noteq> None \<or> n_next (h ! c) \<noteq> None then h
      else
        let h = h[c := (h ! c)\<lparr>n_parent := Some p\<rparr>];
            h = h[p := (h ! p)\<lparr>n_cc := n_cc (h ! p) + 1\<rparr>]
        in case n_last (h ! p) of
             None \<Rightarrow>
               let h = h[p := (h ! p)\<lparr>n_first := Some c\<rparr>];
                   h = h[p := (h ! p)\<lparr>n_current := Some c\<rparr>]
               in h[p := (h ! p)\<lparr>n_last := Some c\<rparr>]
           | Some l \<Rightarrow>
               let h = h[l := (h ! l)\<lparr>n_next := Some c\<rparr>];
                   h = h[c := (h ! c)\<lparr>n_previous := n_last (h ! p)\<rparr>]
               in h[p := (h ! p)\<lparr>n_last := Some c\<rparr>])"

text \<open>
  \<^verbatim>\<open>readXMLNodeValue\<close> (node.c:440). The tests \<^verbatim>\<open>(char)c >= '!' && (char)c <= '~'\<close>
  hold for the bytes 33 to 126 whether \<^verbatim>\<open>char\<close> is signed or not. The first loop
  looks for the first such byte; \<open>Inr None\<close> is the early \<^verbatim>\<open>return\<close> at \<^verbatim>\<open>EOF\<close> or at \<open><\<close>.
\<close>

definition in_range :: "char \<Rightarrow> char \<Rightarrow> char \<Rightarrow> bool" where
  "in_range lo hi c = ((of_char lo :: nat) \<le> of_char c \<and> (of_char c :: nat) \<le> of_char hi)"

function value_first ::
  "char list \<Rightarrow> char list \<Rightarrow> (error + char list option) \<times> char list" where
  "value_first strBuffer file =
     (case fgetc file of (charBuffer, file') \<Rightarrow>
        if charBuffer = None then (Inr None, file')
        else if to_char charBuffer = CHR ''<'' then (Inr None, file')
        else if in_range (CHR ''!'') (CHR ''~'') (to_char charBuffer) then
          (case store 0 (to_char charBuffer) strBuffer of
             None \<Rightarrow> (Inl OutOfBounds, file')
           | Some strBuffer' \<Rightarrow> (Inr (Some strBuffer'), file'))
        else value_first strBuffer file')"
  by pat_completeness auto
termination
  by (relation "measure (\<lambda>(b, fl). length fl)") (auto simp: fgetc_def split: list.splits)

declare value_first.simps [simp del]

text \<open>The second loop accumulates; \<open>Inr None\<close> is its \<^verbatim>\<open>return\<close> at \<^verbatim>\<open>EOF\<close>, which
  leaves the node without the value read so far.\<close>

function value_rest ::
  "nat \<Rightarrow> char list \<Rightarrow> char list \<Rightarrow> (error + (nat \<times> char list) option) \<times> char list" where
  "value_rest i strBuffer file =
     (case fgetc file of (charBuffer, file') \<Rightarrow>
        if charBuffer = None then (Inr None, file')
        else if to_char charBuffer = CHR ''<'' \<or> to_char charBuffer = CHR 0x0A \<or>
                to_char charBuffer = CHR 0x0D then (Inr (Some (i, strBuffer)), file')
        else if in_range (CHR '' '') (CHR ''~'') (to_char charBuffer) then
          (case store i (to_char charBuffer) strBuffer of
             None \<Rightarrow> (Inl OutOfBounds, file')
           | Some strBuffer' \<Rightarrow> value_rest (i + 1) strBuffer' file')
        else value_rest i strBuffer file')"
  by pat_completeness auto
termination
  by (relation "measure (\<lambda>(i, b, fl). length fl)") (auto simp: fgetc_def split: list.splits)

declare value_rest.simps [simp del]

definition readXMLNodeValue :: "nat \<Rightarrow> heap \<Rightarrow> char list \<Rightarrow> (error + heap) \<times> char list" where
  "readXMLNodeValue n h file =
     (case value_first new_buffer file of
        (Inl e, file1) \<Rightarrow> (Inl e, file1)
      | (Inr None, file1) \<Rightarrow> (Inr h, file1)
      | (Inr (Some strBuffer), file1) \<Rightarrow>
      case value_rest 1 strBuffer file1 of
        (Inl e, file2) \<Rightarrow> (Inl e, file2)
      | (Inr None, file2) \<Rightarrow> (Inr h, file2)
      | (Inr (Some (i, strBuffer)), file2) \<Rightarrow>
      case store i (CHR 0x00) strBuffer of
        None \<Rightarrow> (Inl OutOfBounds, file2)
      | Some strBuffer \<Rightarrow> (Inr (h[n := setXMLNodeValue (c_str strBuffer) (h ! n)]), file2))"




subsection \<open>No reader moves the stream backwards\<close>

lemma value_first_length:
  "value_first b fl = (r, fl') \<Longrightarrow> length fl' \<le> length fl"
proof (induction b fl rule: value_first.induct)
  case (1 strBuffer fl)
  obtain c f where cf: "fgetc fl = (c, f)" by (cases "fgetc fl")
  then have le: "length f \<le> length fl" by (rule fgetc_length)
  show ?case using "1.prems" "1.IH" [OF cf [symmetric]] le
    by (subst (asm) value_first.simps) (auto simp: cf split: if_splits option.splits)
qed

lemma value_rest_length:
  "value_rest i b fl = (r, fl') \<Longrightarrow> length fl' \<le> length fl"
proof (induction i b fl rule: value_rest.induct)
  case (1 i strBuffer fl)
  obtain c f where cf: "fgetc fl = (c, f)" by (cases "fgetc fl")
  then have le: "length f \<le> length fl" by (rule fgetc_length)
  show ?case using "1.prems" "1.IH" [OF cf [symmetric]] le
    by (subst (asm) value_rest.simps) (auto simp: cf split: if_splits option.splits)
qed

lemma readXMLNodeValue_length:
  assumes "readXMLNodeValue n h fl = (r, fl')"
  shows "length fl' \<le> length fl"
proof -
  obtain r1 f1 where v1: "value_first new_buffer fl = (r1, f1)"
    by (cases "value_first new_buffer fl")
  then have le1: "length f1 \<le> length fl" by (rule value_first_length)
  show ?thesis
  proof (cases "\<exists>b. r1 = Inr (Some b)")
    case False
    with assms v1 have "fl' = f1"
      by (auto simp: readXMLNodeValue_def split: sum.splits option.splits)
    with le1 show ?thesis by simp
  next
    case True
    then obtain b where b: "r1 = Inr (Some b)" by blast
    obtain r2 f2 where v2: "value_rest 1 b f1 = (r2, f2)" by (cases "value_rest 1 b f1")
    then have "length f2 \<le> length f1" by (rule value_rest_length)
    moreover from assms v1 b v2 have "fl' = f2"
      by (auto simp: readXMLNodeValue_def split: sum.splits option.splits)
    ultimately show ?thesis using le1 by simp
  qed
qed

lemma tag_name_loop_length:
  "tag_name_loop c i b fl = (r, fl') \<Longrightarrow> length fl' \<le> length fl"
proof (induction c i b fl rule: tag_name_loop.induct)
  case (1 charBuffer i strBuffer fl)
  obtain c f where cf: "fgetc fl = (c, f)" by (cases "fgetc fl")
  then have le: "length f \<le> length fl" by (rule fgetc_length)
  show ?case using "1.prems" "1.IH" [OF _ _ cf [symmetric]] le
    by (subst (asm) tag_name_loop.simps) (auto simp: cf split: if_splits option.splits)
qed

lemma tag_attr_loop_length:
  "tag_attr_loop c tag fl = (r, fl') \<Longrightarrow> length fl' \<le> length fl"
proof (induction c tag fl rule: tag_attr_loop.induct)
  case (1 charBuffer tag fl)
  obtain ra f1 where ra: "readXMLAttribute fl = (ra, f1)" by (cases "readXMLAttribute fl")
  obtain c f2 where cf: "fgetc f1 = (c, f2)" by (cases "fgetc f1")
  then have le2: "length f2 \<le> length f1" by (rule fgetc_length)
  show ?case
  proof (cases "charBuffer = Some (CHR '' '')")
    case False
    with "1.prems" show ?thesis by (subst (asm) tag_attr_loop.simps) simp
  next
    case sp: True
    show ?thesis
    proof (cases "ra = Inl OutOfBounds")
      case True
      have "length f1 \<le> length fl"
        using ra True unfolding readXMLAttribute_def
        by (auto split: prod.splits sum.splits option.splits if_splits
            dest!: attr_loop_length fgetc_length)
      moreover from sp True ra "1.prems" have "fl' = f1"
        by (subst (asm) tag_attr_loop.simps) simp
      ultimately show ?thesis by simp
    next
      case False
      with ra have "length f1 < length fl" by (rule readXMLAttribute_length)
      moreover from sp False ra cf "1.prems"
      have "tag_attr_loop c
          (addAttributeToXMLTag (case ra of Inl e \<Rightarrow> None | Inr attr \<Rightarrow> Some attr) tag) f2 = (r, fl')"
        by (subst (asm) tag_attr_loop.simps) simp
      with "1.IH" [OF sp ra [symmetric] False cf [symmetric]]
      have "length fl' \<le> length f2" by simp
      ultimately show ?thesis using le2 by simp
    qed
  qed
qed

lemma after_name_length:
  "after_name c tag fl = (r, fl') \<Longrightarrow> length fl' \<le> length fl"
  by (auto simp: after_name_def split: if_splits prod.splits dest: fgetc_length)

lemma after_attributes_length:
  "after_attributes c tag fl = (r, fl') \<Longrightarrow> length fl' \<le> length fl"
  unfolding after_attributes_def
  by (auto split: if_splits prod.splits sum.splits
      dest!: fgetc_length tag_attr_loop_length)

lemma readXMLTag_length_le:
  assumes "readXMLTag fl = (r, fl')"
  shows "length fl' \<le> length fl"
  using assms unfolding readXMLTag_def Let_def
  by (auto split: prod.splits sum.splits option.splits if_splits
      dest!: fgetc_length tag_name_loop_length after_name_length after_attributes_length)

lemma readXMLTag_Nil: "readXMLTag [] = (Inl UnexpectedEndOfInput, [])"
  by code_simp

lemma readXMLTag_length:
  assumes "readXMLTag fl = (Inr tag, fl')"
  shows "length fl' < length fl"
proof (cases fl)
  case Nil
  with assms show ?thesis by (simp add: readXMLTag_Nil)
next
  case (Cons c cs)
  have "length fl' \<le> length cs"
    using assms unfolding readXMLTag_def Let_def Cons
    by (auto simp: fgetc_def [of "c # cs"] split: prod.splits sum.splits option.splits if_splits
      dest!: fgetc_length tag_name_loop_length after_name_length after_attributes_length)
  with Cons show ?thesis by simp
qed

lemma parse_step_decreases:
  assumes "(x, y) = readXMLNodeValue current h fl" and "(xa, ya) = readXMLTag y"
    and "xa = Inr tag"
  shows "length ya < length fl"
proof -
  from assms(1) have "length y \<le> length fl" by (metis readXMLNodeValue_length)
  moreover from assms(2,3) have "length ya < length y" by (metis readXMLTag_length)
  ultimately show ?thesis by simp
qed

section \<open>Building the tree (xml.c)\<close>

text \<open>
  The loop of \<^verbatim>\<open>parseXMLFile\<close> (xml.c:208-242) with the open node \<^verbatim>\<open>current\<close>. It ends
  normally when a closing tag meets a node without parent. When \<^verbatim>\<open>readXMLTag\<close> fails
  the tree is destroyed and \<^verbatim>\<open>NULL\<close> returned after the diagnostic "No tag remaining,
  and tree isn't finished": the root was never closed, which is \<open>UnbalancedTags\<close>.
\<close>

function parse_loop ::
  "nat \<Rightarrow> heap \<Rightarrow> char list \<Rightarrow> (error + heap \<times> nat) \<times> char list" where
  "parse_loop current h file =
     (case readXMLNodeValue current h file of
        (Inl e, file1) \<Rightarrow> (Inl e, file1)
      | (Inr h, file1) \<Rightarrow>
      case readXMLTag file1 of
        (Inl e, file2) \<Rightarrow> (Inl (if e = OutOfBounds then OutOfBounds else UnbalancedTags), file2)
      | (Inr tag, file2) \<Rightarrow>
          if t_type tag = OPENING then
            (case createXMLNode h of (child, h) \<Rightarrow>
               parse_loop child
                 (addXMLNodeToParent (Some current) (Some child) (initXMLNodeFromXMLTag child tag h))
                 file2)
          else if t_type tag = UNIQUE then
            (case createXMLNode h of (child, h) \<Rightarrow>
               parse_loop current
                 (addXMLNodeToParent (Some current) (Some child) (initXMLNodeFromXMLTag child tag h))
                 file2)
          else if t_type tag = CLOSING then
            (case n_parent (h ! current) of
               Some p \<Rightarrow> parse_loop p h file2
             | None \<Rightarrow> (Inr (h, current), file2))
          else parse_loop current h file2)"
  by pat_completeness auto
termination
  by (relation "measure (\<lambda>(c, h, fl). length fl)")
     (auto dest: parse_step_decreases)

declare parse_loop.simps [simp del]

text \<open>
  \<^verbatim>\<open>parseXMLFile\<close> (xml.c:174). A failed first tag returns \<^verbatim>\<open>NULL\<close> ("Nothing to
  parse") with the tag reader's failure; a first closing tag is \<open>UnbalancedTags\<close>
  ("First tag is a closing tag"), and so is the terminal check \<^verbatim>\<open>root != current\<close>
  ("Last closed node isn't root node"). The result is the heap of the tree and the
  address of its root, with the stream left where parsing stopped.
\<close>

definition parseXMLFile :: "char list \<Rightarrow> (error + heap \<times> nat) \<times> char list" where
  "parseXMLFile file =
     (case readXMLTag file of
        (Inl e, file1) \<Rightarrow> (Inl e, file1)
      | (Inr tag, file1) \<Rightarrow>
          if t_type tag = CLOSING then (Inl UnbalancedTags, file1)
          else if t_type tag = UNIQUE then
            (case createXMLNode [] of (root, h) \<Rightarrow>
               (Inr (initXMLNodeFromXMLTag root tag h, root), file1))
          else
            (case createXMLNode [] of (root, h) \<Rightarrow>
             case parse_loop root (initXMLNodeFromXMLTag root tag h) file1 of
               (Inl e, file2) \<Rightarrow> (Inl e, file2)
             | (Inr (h, current), file2) \<Rightarrow>
                 if root \<noteq> current then (Inl UnbalancedTags, file2)
                 else (Inr (h, root), file2)))"


section \<open>Queries (xml.c)\<close>

text \<open>
  A path is a C string: the model holds its characters before the terminating NUL.
  \<^verbatim>\<open>path[i]\<close> is the terminator at \<open>i = length path\<close>, and a read beyond it is out of
  bounds. The queries return a pointer: \<open>Inr None\<close> is \<^verbatim>\<open>NULL\<close> (not found, or no value),
  and \<open>Inl\<close> is kept for what C leaves undefined: \<open>OutOfBounds\<close> for an access past a
  buffer or past the path, \<open>InvalidPointer\<close> for the use of a \<^verbatim>\<open>NULL\<close> or unallocated
  pointer, \<open>Uninitialised\<close> for the read of a variable never assigned, and \<open>Diverges\<close>
  for a walk along \<^verbatim>\<open>next\<close> that takes more steps than the heap has nodes (it is in
  a cycle and never ends).
\<close>

definition path_at :: "string \<Rightarrow> nat \<Rightarrow> char option" where
  "path_at path i =
     (if i < length path then Some (path ! i)
      else if i = length path then Some (CHR 0x00) else None)"

subsection \<open>getXMLValue\<close>

text \<open>The segment loop (xml.c:296-305).\<close>

function seg_loop ::
  "string \<Rightarrow> nat \<Rightarrow> nat \<Rightarrow> char list \<Rightarrow> error + char \<times> nat \<times> nat \<times> char list" where
  "seg_loop path iPath iBuf strBuffer =
     (case path_at path iPath of
        None \<Rightarrow> Inl OutOfBounds
      | Some charBuffer \<Rightarrow>
          if charBuffer \<noteq> CHR ''/'' \<and> charBuffer \<noteq> CHR '':'' \<and> charBuffer \<noteq> CHR ''$'' \<and>
             charBuffer \<noteq> CHR 0x00 then
            (case store iBuf charBuffer strBuffer of
               None \<Rightarrow> Inl OutOfBounds
             | Some strBuffer' \<Rightarrow> seg_loop path (iPath + 1) (iBuf + 1) strBuffer')
          else Inr (charBuffer, iPath, iBuf, strBuffer))"
  by pat_completeness auto
termination
  by (relation "measure (\<lambda>(path, iPath, iBuf, b). Suc (length path) - iPath)")
     (auto simp: path_at_def split: if_splits)

declare seg_loop.simps [simp del]

text \<open>The attribute name is the rest of the path (xml.c:336-341).\<close>

function attr_name_loop ::
  "string \<Rightarrow> nat \<Rightarrow> nat \<Rightarrow> char list \<Rightarrow> error + nat \<times> nat \<times> char list" where
  "attr_name_loop path iPath iBuf strBuffer =
     (case path_at path iPath of
        None \<Rightarrow> Inl OutOfBounds
      | Some c \<Rightarrow>
          if c \<noteq> CHR 0x00 then
            (case store iBuf c strBuffer of
               None \<Rightarrow> Inl OutOfBounds
             | Some strBuffer' \<Rightarrow> attr_name_loop path (iPath + 1) (iBuf + 1) strBuffer')
          else Inr (iPath, iBuf, strBuffer))"
  by pat_completeness auto
termination
  by (relation "measure (\<lambda>(path, iPath, iBuf, b). Suc (length path) - iPath)")
     (auto simp: path_at_def split: if_splits)

declare attr_name_loop.simps [simp del]

text \<open>The scan of a sibling list (xml.c:316-318):
  \<^verbatim>\<open>while((n != NULL) && (strcmp(strBuffer, n->name) != 0)) n = n->next;\<close>\<close>

fun find_sibling :: "nat \<Rightarrow> heap \<Rightarrow> string \<Rightarrow> nat option \<Rightarrow> error + nat option" where
  "find_sibling fuel h name None = Inr None"
| "find_sibling fuel h name (Some a) =
     (if a \<ge> length h then Inl InvalidPointer
      else case n_name (h ! a) of
        None \<Rightarrow> Inl InvalidPointer
      | Some nm \<Rightarrow>
          if name \<noteq> nm then
            (case fuel of
               0 \<Rightarrow> Inl Diverges
             | Suc k \<Rightarrow> find_sibling k h name (n_next (h ! a)))
          else Inr (Some a))"

text \<open>The scan of an attribute list (xml.c:345-348).\<close>

fun find_attr :: "string \<Rightarrow> XML_Attribute \<Rightarrow> error + XML_Attribute option" where
  "find_attr name (XML_Attribute n v nx) =
     (case n of
        None \<Rightarrow> Inl InvalidPointer
      | Some nm \<Rightarrow>
          if name \<noteq> nm then (case nx of None \<Rightarrow> Inr None | Some a \<Rightarrow> find_attr name a)
          else Inr (Some (XML_Attribute n v nx)))"


lemma seg_loop_index:
  "seg_loop path iPath iBuf b = Inr (c, iPath', iBuf', b') \<Longrightarrow>
     iPath \<le> iPath' \<and> iPath' \<le> length path \<and> (c \<noteq> CHR 0x00 \<longrightarrow> iPath' < length path)"
proof (induction path iPath iBuf b rule: seg_loop.induct)
  case (1 path iPath iBuf strBuffer)
  from "1.prems" obtain c0 where c0: "path_at path iPath = Some c0"
    by (subst (asm) seg_loop.simps) (auto split: option.splits)
  show ?case
  proof (cases "c0 \<noteq> CHR ''/'' \<and> c0 \<noteq> CHR '':'' \<and> c0 \<noteq> CHR ''$'' \<and> c0 \<noteq> CHR 0x00")
    case False
    with "1.prems" c0 have "iPath' = iPath \<and> c = c0"
      by (subst (asm) seg_loop.simps) auto
    with c0 show ?thesis by (auto simp: path_at_def split: if_splits)
  next
    case True
    with "1.prems" c0 obtain b1 where b1: "store iBuf c0 strBuffer = Some b1"
      by (subst (asm) seg_loop.simps) (auto split: option.splits)
    with "1.prems" c0 True
    have "seg_loop path (iPath + 1) (iBuf + 1) b1 = Inr (c, iPath', iBuf', b')"
      by (subst (asm) seg_loop.simps) simp
    from "1.IH" [OF c0 True b1 this] show ?thesis by simp
  qed
qed

lemma attr_name_loop_index:
  "attr_name_loop path iPath iBuf b = Inr (iPath', iBuf', b') \<Longrightarrow>
     iPath \<le> iPath' \<and> iPath' \<le> length path"
proof (induction path iPath iBuf b rule: attr_name_loop.induct)
  case (1 path iPath iBuf strBuffer)
  from "1.prems" obtain c0 where c0: "path_at path iPath = Some c0"
    by (subst (asm) attr_name_loop.simps) (auto split: option.splits)
  show ?case
  proof (cases "c0 \<noteq> CHR 0x00")
    case False
    with "1.prems" c0 have "iPath' = iPath"
      by (subst (asm) attr_name_loop.simps) auto
    with c0 show ?thesis by (auto simp: path_at_def split: if_splits)
  next
    case True
    with "1.prems" c0 obtain b1 where b1: "store iBuf c0 strBuffer = Some b1"
      by (subst (asm) attr_name_loop.simps) (auto split: option.splits)
    with "1.prems" c0 True
    have "attr_name_loop path (iPath + 1) (iBuf + 1) b1 = Inr (iPath', iBuf', b')"
      by (subst (asm) attr_name_loop.simps) simp
    from "1.IH" [OF c0 True b1 this] show ?thesis by simp
  qed
qed

text \<open>
  The loop \<^verbatim>\<open>while(value == NULL)\<close> of \<^verbatim>\<open>getXMLValue\<close> (xml.c:294-357), with the node
  \<open>n\<close> and the index \<open>iPath\<close> it carries from one round to the next. A \<open>$\<close> on a node
  without value, or an attribute without value, leaves \<^verbatim>\<open>value\<close> \<^verbatim>\<open>NULL\<close>, and the loop
  goes round again from the same node.
\<close>

function getXMLValue_loop ::
  "heap \<Rightarrow> string \<Rightarrow> nat option \<Rightarrow> nat \<Rightarrow> error + string option" where
  "getXMLValue_loop h path n iPath =
     (case seg_loop path iPath 0 new_buffer of
        Inl e \<Rightarrow> Inl e
      | Inr (charBuffer, iPath1, iBuf, strBuffer) \<Rightarrow>
      case store iBuf (CHR 0x00) strBuffer of
        None \<Rightarrow> Inl OutOfBounds
      | Some strBuffer \<Rightarrow>
      if charBuffer = CHR 0x00 then Inr None
      else
        case find_sibling (length h) h (c_str strBuffer) n of
          Inl e \<Rightarrow> Inl e
        | Inr None \<Rightarrow> Inr None
        | Inr (Some a) \<Rightarrow>
            if charBuffer = CHR ''/'' then getXMLValue_loop h path (n_first (h ! a)) (iPath1 + 1)
            else if charBuffer = CHR ''$'' then
              (case n_value (h ! a) of
                 Some v \<Rightarrow> Inr (Some v)
               | None \<Rightarrow> getXMLValue_loop h path (Some a) (iPath1 + 1))
            else if charBuffer = CHR '':'' then
              (case attr_name_loop path (iPath1 + 1) 0 strBuffer of
                 Inl e \<Rightarrow> Inl e
               | Inr (iPath2, iBuf, strBuffer) \<Rightarrow>
               case store iBuf (CHR 0x00) strBuffer of
                 None \<Rightarrow> Inl OutOfBounds
               | Some strBuffer \<Rightarrow>
               case (case n_attr (h ! a) of None \<Rightarrow> Inr None
                     | Some attr \<Rightarrow> find_attr (c_str strBuffer) attr) of
                 Inl e \<Rightarrow> Inl e
               | Inr None \<Rightarrow> Inr None
               | Inr (Some attr) \<Rightarrow>
                   (case a_value attr of
                      Some v \<Rightarrow> Inr (Some v)
                    | None \<Rightarrow> getXMLValue_loop h path (Some a) iPath2))
            else getXMLValue_loop h path (Some a) (iPath1 + 1))"
  by pat_completeness auto
termination
  by (relation "measure (\<lambda>(h, path, n, iPath). Suc (length path) - iPath)")
     (auto dest!: seg_loop_index attr_name_loop_index)

declare getXMLValue_loop.simps [simp del]

text \<open>\<^verbatim>\<open>getXMLValue\<close> (xml.c:276) on the tree whose root pointer is \<^verbatim>\<open>xml->root\<close>.\<close>

definition getXMLValue :: "string \<Rightarrow> heap \<Rightarrow> nat option \<Rightarrow> error + string option" where
  "getXMLValue path h root = getXMLValue_loop h path root 0"


subsection \<open>getXMLNode\<close>

text \<open>The loop that reads the node name of the first segment (xml.c:388-398).\<close>

function node_name_loop ::
  "string \<Rightarrow> nat \<Rightarrow> nat \<Rightarrow> char list \<Rightarrow> error + char \<times> nat \<times> nat \<times> char list" where
  "node_name_loop path iPath iNaBuf nameBuffer =
     (case path_at path iPath of
        None \<Rightarrow> Inl OutOfBounds
      | Some charBuffer \<Rightarrow>
          if charBuffer \<noteq> CHR ''/'' \<and> charBuffer \<noteq> CHR ''?'' \<and> charBuffer \<noteq> CHR 0x00 \<and>
             iNaBuf < XML_BUFFER_LENGTH then
            (case store iNaBuf charBuffer nameBuffer of
               None \<Rightarrow> Inl OutOfBounds
             | Some nameBuffer' \<Rightarrow> node_name_loop path (iPath + 1) (iNaBuf + 1) nameBuffer')
          else Inr (charBuffer, iPath, iNaBuf, nameBuffer))"
  by pat_completeness auto
termination
  by (relation "measure (\<lambda>(path, iPath, iBuf, b). Suc (length path) - iPath)")
     (auto simp: path_at_def split: if_splits)

declare node_name_loop.simps [simp del]

text \<open>
  The two \<^verbatim>\<open>do ... while\<close> loops that read the predicate (xml.c:408-416 and 428-436).
  Each stores the character it has just read before it tests it, so the character
  that ends the loop is stored too. The first tests \<^verbatim>\<open>iNaBuf\<close>, not its own index.
\<close>

function node_attr_loop ::
  "string \<Rightarrow> nat \<Rightarrow> nat \<Rightarrow> char list \<Rightarrow> nat \<Rightarrow> error + char \<times> nat \<times> nat \<times> char list" where
  "node_attr_loop path iPath iAtBuf attrBuffer iNaBuf =
     (case path_at path iPath of
        None \<Rightarrow> Inl OutOfBounds
      | Some charBuffer \<Rightarrow>
          (case store iAtBuf charBuffer attrBuffer of
             None \<Rightarrow> Inl OutOfBounds
           | Some attrBuffer' \<Rightarrow>
               if charBuffer \<noteq> CHR ''='' \<and> charBuffer \<noteq> CHR 0x00 \<and> iNaBuf < XML_BUFFER_LENGTH
               then node_attr_loop path (iPath + 1) (iAtBuf + 1) attrBuffer' iNaBuf
               else Inr (charBuffer, iPath + 1, iAtBuf + 1, attrBuffer')))"
  by pat_completeness auto
termination
  by (relation "measure (\<lambda>(path, iPath, iBuf, b, k). Suc (length path) - iPath)")
     (auto simp: path_at_def split: if_splits)

declare node_attr_loop.simps [simp del]

function node_value_loop ::
  "string \<Rightarrow> nat \<Rightarrow> nat \<Rightarrow> char list \<Rightarrow> error + char \<times> nat \<times> nat \<times> char list" where
  "node_value_loop path iPath iVaBuf valueBuffer =
     (case path_at path iPath of
        None \<Rightarrow> Inl OutOfBounds
      | Some charBuffer \<Rightarrow>
          (case store iVaBuf charBuffer valueBuffer of
             None \<Rightarrow> Inl OutOfBounds
           | Some valueBuffer' \<Rightarrow>
               if charBuffer \<noteq> CHR ''/'' \<and> charBuffer \<noteq> CHR 0x00 \<and>
                  iVaBuf + 1 < XML_BUFFER_LENGTH
               then node_value_loop path (iPath + 1) (iVaBuf + 1) valueBuffer'
               else Inr (charBuffer, iPath + 1, iVaBuf + 1, valueBuffer')))"
  by pat_completeness auto
termination
  by (relation "measure (\<lambda>(path, iPath, iBuf, b). Suc (length path) - iPath)")
     (auto simp: path_at_def split: if_splits)

declare node_value_loop.simps [simp del]

text \<open>
  The first segment of a path as \<^verbatim>\<open>getXMLNode\<close> reads it (xml.c:387-440): the node
  name, the predicate (attribute name and value) when the name ended at \<open>?\<close>, the last
  character read and the index \<^verbatim>\<open>iPath\<close> reached. \<open>Inr None\<close> is the \<^verbatim>\<open>return NULL\<close>
  after "Attribute's name is not followed by a value.". Without a predicate the
  variable \<^verbatim>\<open>iAtBuf\<close> is never assigned.
\<close>

definition node_segment ::
  "string \<Rightarrow> error + (string \<times> (string \<times> string) option \<times> char \<times> nat) option" where
  "node_segment path =
     (case node_name_loop path 0 0 new_buffer of
        Inl e \<Rightarrow> Inl e
      | Inr (charBuffer, iPath, iNaBuf, nameBuffer) \<Rightarrow>
      case store iNaBuf (CHR 0x00) nameBuffer of
        None \<Rightarrow> Inl OutOfBounds
      | Some nameBuffer \<Rightarrow>
      if charBuffer = CHR ''?'' then
        (case node_attr_loop path (iPath + 1) 0 new_buffer iNaBuf of
           Inl e \<Rightarrow> Inl e
         | Inr (charBuffer, iPath, iAtBuf, attrBuffer) \<Rightarrow>
         case store iAtBuf (CHR 0x00) attrBuffer of
           None \<Rightarrow> Inl OutOfBounds
         | Some attrBuffer \<Rightarrow>
         if charBuffer \<noteq> CHR ''='' then Inr None
         else
           (case node_value_loop path (iPath + 1) 0 new_buffer of
              Inl e \<Rightarrow> Inl e
            | Inr (charBuffer, iPath, iVaBuf, valueBuffer) \<Rightarrow>
            case store iVaBuf (CHR 0x00) valueBuffer of
              None \<Rightarrow> Inl OutOfBounds
            | Some valueBuffer \<Rightarrow>
                Inr (Some (c_str nameBuffer, Some (c_str attrBuffer, c_str valueBuffer),
                           charBuffer, iPath + 1))))
      else Inr (Some (c_str nameBuffer, None, charBuffer, iPath + 1)))"

text \<open>The inner loop over the attributes of a node (xml.c:455-462); it returns
  \<^verbatim>\<open>nodeFound\<close> and the pointer \<^verbatim>\<open>attr\<close> it stopped with.\<close>

fun attr_match ::
  "string \<Rightarrow> string \<Rightarrow> XML_Attribute \<Rightarrow> error + bool \<times> XML_Attribute option" where
  "attr_match attrBuffer valueBuffer (XML_Attribute n v nx) =
     (case n of
        None \<Rightarrow> Inl InvalidPointer
      | Some nm \<Rightarrow>
          if nm = attrBuffer then
            (case v of
               None \<Rightarrow> Inl InvalidPointer
             | Some vl \<Rightarrow>
                 if vl = valueBuffer then Inr (True, nx)
                 else (case nx of None \<Rightarrow> Inr (False, None)
                       | Some a \<Rightarrow> attr_match attrBuffer valueBuffer a))
          else (case nx of None \<Rightarrow> Inr (False, None)
                | Some a \<Rightarrow> attr_match attrBuffer valueBuffer a))"

text \<open>The \<^verbatim>\<open>do ... while((!nodeFound) && (n != NULL))\<close> over the siblings
  (xml.c:443-469); it returns \<^verbatim>\<open>nodeFound\<close> and \<^verbatim>\<open>n\<close>.\<close>

fun node_loop ::
  "nat \<Rightarrow> heap \<Rightarrow> string \<Rightarrow> (string \<times> string) option \<Rightarrow> nat \<Rightarrow> error + bool \<times> nat option" where
  "node_loop fuel h nameBuffer pred n =
     (if n \<ge> length h then Inl InvalidPointer
      else case n_name (h ! n) of
        None \<Rightarrow> Inl InvalidPointer
      | Some nm \<Rightarrow>
      case (if nameBuffer \<noteq> nm then Inr (False, n_next (h ! n))
            else case pred of
              None \<Rightarrow> Inl Uninitialised
            | Some (attrBuffer, valueBuffer) \<Rightarrow>
                (case (case n_attr (h ! n) of None \<Rightarrow> Inr (False, None)
                       | Some a \<Rightarrow> attr_match attrBuffer valueBuffer a) of
                   Inl e \<Rightarrow> Inl e
                 | Inr (nodeFound, attr) \<Rightarrow>
                     Inr (nodeFound, if attr = None then n_next (h ! n) else Some n))) of
        Inl e \<Rightarrow> Inl e
      | Inr (nodeFound, None) \<Rightarrow> Inr (nodeFound, None)
      | Inr (nodeFound, Some n') \<Rightarrow>
          if nodeFound then Inr (nodeFound, Some n')
          else (case fuel of
                  0 \<Rightarrow> Inl Diverges
                | Suc k \<Rightarrow> node_loop k h nameBuffer pred n'))"

declare node_loop.simps [simp del]


lemma node_name_loop_index:
  "node_name_loop path iPath iBuf b = Inr (c, iPath', iBuf', b') \<Longrightarrow>
     iPath' \<le> length path \<and> (c \<noteq> CHR 0x00 \<longrightarrow> iPath' < length path)"
proof (induction path iPath iBuf b rule: node_name_loop.induct)
  case (1 path iPath iNaBuf nameBuffer)
  from "1.prems" obtain c0 where c0: "path_at path iPath = Some c0"
    by (subst (asm) node_name_loop.simps) (auto split: option.splits)
  show ?case
  proof (cases "c0 \<noteq> CHR ''/'' \<and> c0 \<noteq> CHR ''?'' \<and> c0 \<noteq> CHR 0x00 \<and> iNaBuf < XML_BUFFER_LENGTH")
    case False
    with "1.prems" c0 have "iPath' = iPath \<and> c = c0"
      by (subst (asm) node_name_loop.simps) auto
    with c0 show ?thesis by (auto simp: path_at_def split: if_splits)
  next
    case True
    with "1.prems" c0 obtain b1 where b1: "store iNaBuf c0 nameBuffer = Some b1"
      by (subst (asm) node_name_loop.simps) (auto split: option.splits)
    with "1.prems" c0 True
    have "node_name_loop path (iPath + 1) (iNaBuf + 1) b1 = Inr (c, iPath', iBuf', b')"
      by (subst (asm) node_name_loop.simps) simp
    from "1.IH" [OF c0 True b1 this] show ?thesis by simp
  qed
qed

lemma node_segment_index:
  "node_segment path = Inr (Some (nm, pred, c, iPath)) \<Longrightarrow> 0 < iPath"
  by (auto simp: node_segment_def split: sum.splits option.splits prod.splits if_splits)

text \<open>
  \<^verbatim>\<open>getXMLNode\<close> (xml.c:370). After a \<open>/\<close> it calls itself on \<^verbatim>\<open>path + iPath\<close> and the
  first child of \<open>n\<close>; when \<^verbatim>\<open>iPath\<close> has passed the terminator that pointer is outside
  the string.
\<close>

function getXMLNode :: "string \<Rightarrow> heap \<Rightarrow> nat option \<Rightarrow> error + nat option" where
  "getXMLNode path h root =
     (case root of
        None \<Rightarrow> Inr None
      | Some r \<Rightarrow>
      case node_segment path of
        Inl e \<Rightarrow> Inl e
      | Inr None \<Rightarrow> Inr None
      | Inr (Some (nameBuffer, pred, charBuffer, iPath)) \<Rightarrow>
      case node_loop (length h) h nameBuffer pred r of
        Inl e \<Rightarrow> Inl e
      | Inr (nodeFound, n) \<Rightarrow>
          if \<not> nodeFound then Inr None
          else if charBuffer = CHR ''/'' then
            (case n of
               None \<Rightarrow> Inl InvalidPointer
             | Some a \<Rightarrow>
                 if a \<ge> length h then Inl InvalidPointer
                 else if iPath > length path then Inl OutOfBounds
                 else getXMLNode (drop iPath path) h (n_first (h ! a)))
          else if charBuffer \<noteq> CHR 0x00 then Inr None
          else Inr n)"
  by pat_completeness auto
termination
proof (relation "measure (\<lambda>(path, h, root). length path)", goal_cases)
  case 1
  show ?case by simp
next
  case (2 path h root r b seg nameBuffer y pred ya charBuffer iPath ba nodeFound n a)
  then have "node_segment path = Inr (Some (nameBuffer, pred, charBuffer, iPath))" by simp
  then have "0 < iPath" by (rule node_segment_index)
  with 2 show ?case by simp
qed

declare getXMLNode.simps [simp del]


section \<open>Vocabulary of the properties\<close>

text \<open>A character of a tag name: none of the three that end the name loop of
  \<^verbatim>\<open>readXMLTag\<close>, nor the chevron, which the reader skips in front of a tag.\<close>

definition name_char :: "char \<Rightarrow> bool" where
  "name_char c = (c \<noteq> CHR '' '' \<and> c \<noteq> CHR ''>'' \<and> c \<noteq> CHR ''/'' \<and> c \<noteq> CHR ''<'')"

text \<open>The tree of \<^verbatim>\<open><r><item id="1"/><item id="2"/></r>\<close>, as \<^verbatim>\<open>parseXMLFile\<close> builds it:
  the root at address 0, the two siblings at 1 and 2.\<close>

definition items_heap :: heap where
  "items_heap =
     [\<lparr>n_name = Some ''r'', n_value = None, n_attr = None,
        n_parent = None, n_previous = None, n_next = None,
        n_first = Some 1, n_current = Some 1, n_last = Some 2, n_cc = 2\<rparr>,
      \<lparr>n_name = Some ''item'', n_value = None,
        n_attr = Some (XML_Attribute (Some ''id'') (Some ''1'') None),
        n_parent = Some 0, n_previous = None, n_next = Some 2,
        n_first = None, n_current = None, n_last = None, n_cc = 0\<rparr>,
      \<lparr>n_name = Some ''item'', n_value = None,
        n_attr = Some (XML_Attribute (Some ''id'') (Some ''2'') None),
        n_parent = Some 0, n_previous = Some 1, n_next = None,
        n_first = None, n_current = None, n_last = None, n_cc = 0\<rparr>]"

text \<open>
  Linked lists in the heap. \<open>follow fuel nx n p\<close> is the list of the addresses reached
  from the pointer \<open>p\<close> by following the field \<open>nx\<close> until \<^verbatim>\<open>NULL\<close>, in that order, in a
  heap of \<open>n\<close> nodes; it is \<open>None\<close> when the walk leaves the heap or does not end within
  \<open>fuel\<close> nodes. A walk that ends visits each node once, so the size of the heap is
  fuel enough. \<open>chain nx n p xs\<close> says that \<open>xs\<close> is such a walk.
\<close>

fun follow :: "nat \<Rightarrow> (nat \<Rightarrow> nat option) \<Rightarrow> nat \<Rightarrow> nat option \<Rightarrow> nat list option" where
  "follow fuel nx n None = Some []"
| "follow 0 nx n (Some a) = None"
| "follow (Suc k) nx n (Some a) =
     (if a < n then map_option ((#) a) (follow k nx n (nx a)) else None)"

fun chain :: "(nat \<Rightarrow> nat option) \<Rightarrow> nat \<Rightarrow> nat option \<Rightarrow> nat list \<Rightarrow> bool" where
  "chain nx n p [] = (p = None)"
| "chain nx n p (a # as) = (p = Some a \<and> a < n \<and> chain nx n (nx a) as)"

text \<open>The sibling list that starts at a pointer (walking \<^verbatim>\<open>next\<close>), and the proper
  ancestors of a node, nearest first (walking \<^verbatim>\<open>parent\<close>).\<close>

definition siblings :: "heap \<Rightarrow> nat option \<Rightarrow> nat list option" where
  "siblings h p = follow (length h) (\<lambda>a. n_next (h ! a)) (length h) p"

definition ancestors :: "heap \<Rightarrow> nat \<Rightarrow> nat list option" where
  "ancestors h a = follow (length h) (\<lambda>a. n_parent (h ! a)) (length h) (n_parent (h ! a))"

text \<open>
  The path resolution of the specification, in its words: at the current level, the
  first node of the sibling list whose name equals the segment (compared character by
  character, so case-sensitively); after each \<open>/\<close>, the level below that node, which
  starts at its \<^verbatim>\<open>first\<close> child; not found (\<open>None\<close>) as soon as no sibling matches.
\<close>

definition first_named :: "heap \<Rightarrow> nat option \<Rightarrow> string \<Rightarrow> nat option" where
  "first_named h p seg =
     (case siblings h p of
        None \<Rightarrow> None
      | Some xs \<Rightarrow> find (\<lambda>a. n_name (h ! a) = Some seg) xs)"

fun descend :: "heap \<Rightarrow> nat option \<Rightarrow> string list \<Rightarrow> nat option option" where
  "descend h p [] = Some p"
| "descend h p (seg # segs) =
     (case first_named h p seg of
        None \<Rightarrow> None
      | Some a \<Rightarrow> descend h (n_first (h ! a)) segs)"

definition resolve :: "heap \<Rightarrow> nat option \<Rightarrow> string list \<Rightarrow> string \<Rightarrow> nat option" where
  "resolve h root dirs seg =
     (case descend h root dirs of None \<Rightarrow> None | Some p \<Rightarrow> first_named h p seg)"

text \<open>The first attribute of a list with a given name, scanning from the head, and its
  value.\<close>

definition attr_value :: "XML_Attribute option \<Rightarrow> string \<Rightarrow> string option" where
  "attr_value p name =
     (case find (\<lambda>(n, v). n = Some name) (attrs p) of None \<Rightarrow> None | Some (n, v) \<Rightarrow> v)"

text \<open>The text of a path: every segment of \<open>dirs\<close> followed by \<open>/\<close>.\<close>

definition slash_path :: "string list \<Rightarrow> string" where
  "slash_path dirs = concat (map (\<lambda>s. s @ ''/'') dirs)"

text \<open>A segment the grammar allows and the scratch buffer holds: none of the
  delimiters, no NUL, and room left for the terminator.\<close>

definition seg_ok :: "string \<Rightarrow> bool" where
  "seg_ok s = (length s < XML_BUFFER_LENGTH \<and>
     list_all (\<lambda>c. c \<noteq> CHR ''/'' \<and> c \<noteq> CHR '':'' \<and> c \<noteq> CHR ''$'' \<and> c \<noteq> CHR 0x00) s)"

definition attr_ok :: "string \<Rightarrow> bool" where
  "attr_ok s = (length s < XML_BUFFER_LENGTH \<and> list_all (\<lambda>c. c \<noteq> CHR 0x00) s)"

text \<open>A heap the queries can walk: every node has a name, every attribute has a name,
  and the list of children of every node ends.\<close>

definition heap_ok :: "heap \<Rightarrow> bool" where
  "heap_ok h =
     list_all (\<lambda>n. n_name n \<noteq> None \<and> list_all (\<lambda>(an, av). an \<noteq> None) (attrs (n_attr n)) \<and>
                    siblings h (n_first n) \<noteq> None) h"

text \<open>The tree of \<^verbatim>\<open><root><foo><bar baz="1">hi</bar></foo></root>\<close>, as \<^verbatim>\<open>parseXMLFile\<close>
  builds it.\<close>

definition bar_heap :: heap where
  "bar_heap =
     [\<lparr>n_name = Some ''root'', n_value = None, n_attr = None,
        n_parent = None, n_previous = None, n_next = None,
        n_first = Some 1, n_current = Some 1, n_last = Some 1, n_cc = 1\<rparr>,
      \<lparr>n_name = Some ''foo'', n_value = None, n_attr = None,
        n_parent = Some 0, n_previous = None, n_next = None,
        n_first = Some 2, n_current = Some 2, n_last = Some 2, n_cc = 1\<rparr>,
      \<lparr>n_name = Some ''bar'', n_value = Some ''hi'',
        n_attr = Some (XML_Attribute (Some ''baz'') (Some ''1'') None),
        n_parent = Some 1, n_previous = None, n_next = None,
        n_first = None, n_current = None, n_last = None, n_cc = 0\<rparr>]"

text \<open>
  The structural invariant of a node \<open>p\<close>: the walk along \<^verbatim>\<open>next\<close> from \<^verbatim>\<open>first\<close> ends,
  \<^verbatim>\<open>cc\<close> is the number of nodes it visits, \<^verbatim>\<open>first\<close> is its head and \<^verbatim>\<open>last\<close> its final
  node (both \<^verbatim>\<open>NULL\<close> when there is none), and every node it visits has \<open>p\<close> as its
  \<^verbatim>\<open>parent\<close>. \<open>tree_inv\<close> asks it of every node of the heap.
\<close>

definition node_inv :: "heap \<Rightarrow> nat \<Rightarrow> bool" where
  "node_inv h p =
     (case siblings h (n_first (h ! p)) of
        None \<Rightarrow> False
      | Some xs \<Rightarrow>
          n_cc (h ! p) = int (length xs) \<and>
          n_first (h ! p) = (if xs = [] then None else Some (hd xs)) \<and>
          n_last (h ! p) = (if xs = [] then None else Some (last xs)) \<and>
          list_all (\<lambda>x. n_parent (h ! x) = Some p) xs)"

definition tree_inv :: "heap \<Rightarrow> bool" where
  "tree_inv h = list_all (node_inv h) [0..<length h]"

text \<open>A tag with a name whose attributes all have names, as \<^verbatim>\<open>readXMLTag\<close> returns them.\<close>

definition tag_named :: "XML_Tag \<Rightarrow> bool" where
  "tag_named tag = (t_name tag \<noteq> None \<and> list_all (\<lambda>(an, av). an \<noteq> None) (attrs (t_attr tag)))"

text \<open>Every \<^verbatim>\<open>parent\<close> pointer of the heap points into the heap.\<close>

definition parents_in :: "heap \<Rightarrow> bool" where
  "parents_in h = list_all (\<lambda>n. case n_parent n of None \<Rightarrow> True | Some p \<Rightarrow> p < length h) h"

text \<open>A node as \<^verbatim>\<open>createXMLNode\<close> and \<^verbatim>\<open>initXMLNodeFromXMLTag\<close> leave it: no link at all.\<close>

definition fresh_node :: "XML_Tag \<Rightarrow> XML_Node" where
  "fresh_node tag = move_attributes tag
     (case t_name tag of None \<Rightarrow> initXMLNode | Some name \<Rightarrow> setXMLNodeName name initXMLNode)"

text \<open>
  What holds of the heap all along \<^verbatim>\<open>parseXMLFile\<close>: the structural invariant, parents
  inside the heap, names on every node and attribute, no \<^verbatim>\<open>next\<close> on a node without
  parent, and no node without parent but the root, at address 0.
\<close>

definition parse_inv :: "heap \<Rightarrow> bool" where
  "parse_inv h =
     (tree_inv h \<and> parents_in h \<and>
      (\<forall>x<length h. n_name (h ! x) \<noteq> None \<and>
                      list_all (\<lambda>(an, av). an \<noteq> None) (attrs (n_attr (h ! x)))) \<and>
      (\<forall>x<length h. n_parent (h ! x) = None \<longrightarrow> n_next (h ! x) = None) \<and>
      (\<forall>x<length h. 0 < x \<longrightarrow> n_parent (h ! x) \<noteq> None))"

text \<open>No node of the heap is its own ancestor: from every node the walk along
  \<^verbatim>\<open>parent\<close> ends.\<close>

definition acyclic_heap :: "heap \<Rightarrow> bool" where
  "acyclic_heap h = list_all (\<lambda>x. ancestors h x \<noteq> None) [0..<length h]"

text \<open>The tree of \<^verbatim>\<open><a><b/></a>\<close>, as \<^verbatim>\<open>parseXMLFile\<close> builds it.\<close>

definition ab_heap :: heap where
  "ab_heap =
     [\<lparr>n_name = Some ''a'', n_value = None, n_attr = None,
        n_parent = None, n_previous = None, n_next = None,
        n_first = Some 1, n_current = Some 1, n_last = Some 1, n_cc = 1\<rparr>,
      \<lparr>n_name = Some ''b'', n_value = None, n_attr = None,
        n_parent = Some 0, n_previous = None, n_next = None,
        n_first = None, n_current = None, n_last = None, n_cc = 0\<rparr>]"

text \<open>
  The tree builder of the specification, reduced to the kinds of the tags it reads.
  \<open>skip_value\<close> is the stream after the text that \<^verbatim>\<open>readXMLNodeValue\<close> reads in front of a
  tag (\<open>None\<close> when that reading fails). \<open>open_tags d\<close> is the state \<open>Open(cursor)\<close> with
  \<open>d\<close> open nodes above the cursor: an opening tag descends, a closing tag ascends, or
  ends the document when the cursor is the root (\<open>d = 0\<close>); any other tag leaves the
  depth as it is. The result is the list of the kinds read, and the rest of the stream
  when the root was closed, \<open>None\<close> when reading failed before that.
\<close>

definition skip_value :: "char list \<Rightarrow> char list option" where
  "skip_value file =
     (case readXMLNodeValue 0 [initXMLNode] file of
        (Inl e, file1) \<Rightarrow> None
      | (Inr h, file1) \<Rightarrow> Some file1)"

lemma skip_value_length:
  assumes "skip_value fl = Some f1" and "(Inr tag, f2) = readXMLTag f1"
  shows "length f2 < length fl"
proof -
  obtain r f where rv: "readXMLNodeValue 0 [initXMLNode] fl = (r, f)"
    by (cases "readXMLNodeValue 0 [initXMLNode] fl")
  with assms(1) have "f = f1" by (auto simp: skip_value_def split: sum.splits)
  with rv have "length f1 \<le> length fl" by (metis readXMLNodeValue_length)
  moreover from assms(2) [symmetric] have "length f2 < length f1" by (rule readXMLTag_length)
  ultimately show ?thesis by simp
qed

function open_tags :: "nat \<Rightarrow> char list \<Rightarrow> XML_TagType list \<times> char list option" where
  "open_tags d file =
     (case skip_value file of
        None \<Rightarrow> ([], None)
      | Some file1 \<Rightarrow>
      case readXMLTag file1 of
        (Inl e, file2) \<Rightarrow> ([], None)
      | (Inr tag, file2) \<Rightarrow>
          if t_type tag = OPENING then
            (case open_tags (d + 1) file2 of (ts, r) \<Rightarrow> (OPENING # ts, r))
          else if t_type tag = CLOSING then
            (case d of
               0 \<Rightarrow> ([CLOSING], Some file2)
             | Suc d' \<Rightarrow> (case open_tags d' file2 of (ts, r) \<Rightarrow> (CLOSING # ts, r)))
          else (case open_tags d file2 of (ts, r) \<Rightarrow> (t_type tag # ts, r)))"
  by pat_completeness auto
termination
  by (relation "measure (\<lambda>(d, fl). length fl)") (auto dest: skip_value_length)

declare open_tags.simps [simp del]

text \<open>
  The kinds of the tags of a document, from \<open>AwaitingRoot\<close>: a first closing tag is
  invalid, a first Unique tag is the whole document, any other first tag opens the
  root.
\<close>

definition document_tags :: "char list \<Rightarrow> XML_TagType list \<times> char list option" where
  "document_tags file =
     (case readXMLTag file of
        (Inl e, file1) \<Rightarrow> ([], None)
      | (Inr tag, file1) \<Rightarrow>
          if t_type tag = CLOSING then ([CLOSING], None)
          else if t_type tag = UNIQUE then ([UNIQUE], Some file1)
          else (case open_tags 0 file1 of (ts, r) \<Rightarrow> (OPENING # ts, r)))"

text \<open>
  Closing tags exactly balance opening ones: a document has as many closing tags as
  opening ones, and after each of its tags but the last more nodes have been opened
  than closed (the root is still open).
\<close>

definition openings :: "XML_TagType list \<Rightarrow> nat" where
  "openings ts = length (filter (\<lambda>t. t = OPENING) ts)"

definition closings :: "XML_TagType list \<Rightarrow> nat" where
  "closings ts = length (filter (\<lambda>t. t = CLOSING) ts)"

definition balanced :: "XML_TagType list \<Rightarrow> bool" where
  "balanced ts =
     (ts \<noteq> [] \<and> openings ts = closings ts \<and>
      list_all (\<lambda>n. closings (take n ts) < openings (take n ts)) [1..<length ts])"

section \<open>Properties\<close>

subsection \<open>A first Unique tag is the whole tree\<close>

text \<open>
  Claim C5. Parsing an input that starts with the Unique tag \<^verbatim>\<open><a k="v"/>\<close> succeeds at
  once with a tree of one node: the root is named \<open>a\<close>, has the single attribute \<open>k\<close>
  with value \<open>v\<close>, no text value, no parent, no sibling and no child, and the stream is
  left exactly after the tag, whatever follows it.
\<close>

theorem parseXMLFile_unique_tag:
  \<open>parseXMLFile (''<a k="v"/>'' @ rest) =
     (Inr ([\<lparr>n_name = Some ''a'', n_value = None,
              n_attr = Some (XML_Attribute (Some ''k'') (Some ''v'') None),
              n_parent = None, n_previous = None, n_next = None,
              n_first = None, n_current = None, n_last = None, n_cc = 0\<rparr>], 0),
      rest)\<close>
  by code_simp

subsection \<open>Attribute order\<close>

lemma move_attributes_attrs:
  "attrs (n_attr (move_attributes tag nd)) = rev (attrs (t_attr tag)) @ attrs (n_attr nd)"
proof (induction tag nd rule: move_attributes.induct)
  case (1 tag n)
  show ?case
  proof (cases "t_attr tag")
    case None
    then show ?thesis by (subst move_attributes.simps) simp
  next
    case (Some d)
    obtain nm v nx where d: "d = XML_Attribute nm v nx" by (cases d)
    have del: "deleteAttributeFromXMLTag tag = (Some (XML_Attribute nm v None), tag\<lparr>t_attr := nx\<rparr>)"
      by (simp add: deleteAttributeFromXMLTag_def Some d)
    have add: "attrs (n_attr (addAttributeToXMLNode (XML_Attribute nm v None) n)) = (nm, v) # attrs (n_attr n)"
      by (cases "n_attr n") (simp_all add: addAttributeToXMLNode_def)
    have "move_attributes tag n =
        move_attributes (tag\<lparr>t_attr := nx\<rparr>) (addAttributeToXMLNode (XML_Attribute nm v None) n)"
      by (subst move_attributes.simps) (simp add: Some del)
    moreover have "attrs (n_attr (move_attributes (tag\<lparr>t_attr := nx\<rparr>)
          (addAttributeToXMLNode (XML_Attribute nm v None) n))) =
        rev (attrs nx) @ (nm, v) # attrs (n_attr n)"
      using "1.IH" [OF _ del [symmetric] refl] Some add by simp
    ultimately show ?thesis by (simp add: Some d)
  qed
qed

text \<open>
  Claim C1, as the code has it. Each newly parsed attribute becomes the new head of the
  list of the \<^emph>\<open>tag\<close>, so the tag read from \<^verbatim>\<open><a x="1" y="2"/>\<close> lists \<open>y\<close> then \<open>x\<close>.
  \<^verbatim>\<open>initXMLNodeFromXMLTag\<close> then moves the attributes one at a time from the head of the
  tag's list to the head of the node's list, which reverses them once more: the tree
  node lists its attributes in document order, \<open>x\<close> then \<open>y\<close>.
\<close>

theorem attribute_order_tag_reversed_node_document:
  \<open>attrs (t_attr (addAttributeToXMLTag (Some (XML_Attribute n v None)) tag))
       = (n, v) # attrs (t_attr tag)
   \<and> attrs (n_attr (move_attributes tag nd)) = rev (attrs (t_attr tag)) @ attrs (n_attr nd)
   \<and> fst (readXMLTag ''<a x="1" y="2"/>'') =
       Inr \<lparr>t_name = Some ''a'',
            t_attr = Some (XML_Attribute (Some ''y'') (Some ''2'')
                       (Some (XML_Attribute (Some ''x'') (Some ''1'') None))),
            t_type = UNIQUE\<rparr>
   \<and> fst (parseXMLFile ''<a x="1" y="2"/>'') =
       Inr ([\<lparr>n_name = Some ''a'', n_value = None,
               n_attr = Some (XML_Attribute (Some ''x'') (Some ''1'')
                          (Some (XML_Attribute (Some ''y'') (Some ''2'') None))),
               n_parent = None, n_previous = None, n_next = None,
               n_first = None, n_current = None, n_last = None, n_cc = 0\<rparr>], 0)\<close>
proof (intro conjI)
  show "attrs (t_attr (addAttributeToXMLTag (Some (XML_Attribute n v None)) tag))
       = (n, v) # attrs (t_attr tag)"
    by (cases "t_attr tag") (simp_all add: addAttributeToXMLTag_def)
  show "attrs (n_attr (move_attributes tag nd)) = rev (attrs (t_attr tag)) @ attrs (n_attr nd)"
    by (rule move_attributes_attrs)
  show \<open>fst (readXMLTag ''<a x="1" y="2"/>'') =
       Inr \<lparr>t_name = Some ''a'',
            t_attr = Some (XML_Attribute (Some ''y'') (Some ''2'')
                       (Some (XML_Attribute (Some ''x'') (Some ''1'') None))),
            t_type = UNIQUE\<rparr>\<close>
    by code_simp
  show \<open>fst (parseXMLFile ''<a x="1" y="2"/>'') =
       Inr ([\<lparr>n_name = Some ''a'', n_value = None,
               n_attr = Some (XML_Attribute (Some ''x'') (Some ''1'')
                          (Some (XML_Attribute (Some ''y'') (Some ''2'') None))),
               n_parent = None, n_previous = None, n_next = None,
               n_first = None, n_current = None, n_last = None, n_cc = 0\<rparr>], 0)\<close>
    by code_simp
qed

text \<open>
  Claim C1 as stated fails: the node parsed from \<^verbatim>\<open><a x="1" y="2"/>\<close> does not list
  \<open>y\<close> before \<open>x\<close>.
\<close>

theorem node_attributes_not_reversed:
  \<open>fst (parseXMLFile ''<a x="1" y="2"/>'') =
       Inr ([\<lparr>n_name = Some ''a'', n_value = None,
               n_attr = Some (XML_Attribute (Some ''x'') (Some ''1'')
                          (Some (XML_Attribute (Some ''y'') (Some ''2'') None))),
               n_parent = None, n_previous = None, n_next = None,
               n_first = None, n_current = None, n_last = None, n_cc = 0\<rparr>], 0)
   \<and> attrs (Some (XML_Attribute (Some ''x'') (Some ''1'')
                          (Some (XML_Attribute (Some ''y'') (Some ''2'') None))))
       \<noteq> [(Some ''y'', Some ''2''), (Some ''x'', Some ''1'')]\<close>
  by code_simp

subsection \<open>End of input inside an attribute\<close>

lemma attr_loop_no_stop:
  "stop \<notin> set fl \<Longrightarrow> c \<noteq> Some stop \<Longrightarrow> fst (attr_loop stop c i b fl) = Inl OutOfBounds"
proof (induction stop c i b fl rule: attr_loop.induct)
  case (1 stop charBuffer i strBuffer fl)
  show ?case
  proof (cases "store i (to_char charBuffer) strBuffer")
    case None
    with "1.prems" show ?thesis by (subst attr_loop.simps) simp
  next
    case (Some b')
    obtain c f where cf: "fgetc fl = (c, f)" by (cases "fgetc fl")
    with "1.prems" have "stop \<notin> set f" "c \<noteq> Some stop"
      by (auto simp: fgetc_def split: list.splits)
    with "1.IH" [OF "1.prems"(2) Some cf [symmetric]]
    have "fst (attr_loop stop c (i + 1) b' f) = Inl OutOfBounds" by simp
    with "1.prems" Some cf show ?thesis by (subst attr_loop.simps) simp
  qed
qed

text \<open>
  Claim C3 asks \<^verbatim>\<open>readXMLAttribute\<close> to stop with \<open>MalformedTag\<close> when the stream ends
  before \<open>=\<close>, and with \<open>UnexpectedEndOfInput\<close> when it ends before the closing quote.
  The code tests for neither: on every stream without \<open>=\<close> it goes on reading
  \<^verbatim>\<open>EOF\<close> and storing it until it writes past the scratch buffer, and so it does on
  \<^verbatim>\<open>k="v\<close>, whose value is never closed.
\<close>

theorem readXMLAttribute_reads_past_eof:
  \<open>(CHR ''='' \<notin> set fl \<longrightarrow> fst (readXMLAttribute fl) = Inl OutOfBounds)
   \<and> fst (readXMLAttribute ''k="v'') = Inl OutOfBounds\<close>
proof (intro conjI impI)
  assume ne: "CHR ''='' \<notin> set fl"
  obtain c f where cf: "fgetc fl = (c, f)" by (cases "fgetc fl")
  with ne have "CHR ''='' \<notin> set f" "c \<noteq> Some (CHR ''='')"
    by (auto simp: fgetc_def split: list.splits)
  then have "fst (attr_loop (CHR ''='') c 0 new_buffer f) = Inl OutOfBounds"
    by (rule attr_loop_no_stop)
  with cf show "fst (readXMLAttribute fl) = Inl OutOfBounds"
    by (cases "attr_loop (CHR ''='') c 0 new_buffer f") (simp add: readXMLAttribute_def)
next
  show \<open>fst (readXMLAttribute ''k="v'') = Inl OutOfBounds\<close> by code_simp
qed

theorem readXMLAttribute_reads_past_eof_witness:
  "CHR ''='' \<notin> set ''key'' \<and> fst (readXMLAttribute ''key'') = Inl OutOfBounds"
  using readXMLAttribute_reads_past_eof [of "''key''"] by simp

subsection \<open>A tag name that fills the scratch buffer\<close>

lemma tag_name_loop_overflow:
  assumes "\<forall>c\<in>set nm. name_char c" and "nm \<noteq> []"
    and "XML_BUFFER_LENGTH \<le> i + length nm" and "i < XML_BUFFER_LENGTH"
    and "length b = XML_BUFFER_LENGTH"
  shows "tag_name_loop (Some (hd nm)) i b (tl nm @ rest) =
           (Inl BufferOverflow, drop (XML_BUFFER_LENGTH + 1 - i) (nm @ rest))"
  using assms
proof (induction nm arbitrary: i b)
  case Nil
  then show ?case by simp
next
  case (Cons x xs)
  from Cons.prems have x: "x \<noteq> CHR '' ''" "x \<noteq> CHR ''>''" "x \<noteq> CHR ''/''"
    by (simp_all add: name_char_def)
  from Cons.prems have st: "store i x b = Some (b[i := x])" by (simp add: store_def)
  show ?case
  proof (cases "XML_BUFFER_LENGTH \<le> i + 1")
    case True
    with Cons.prems have i: "XML_BUFFER_LENGTH + 1 - i = 2" by simp
    obtain c f where cf: "fgetc (xs @ rest) = (c, f)" by (cases "fgetc (xs @ rest)")
    then have "f = tl (xs @ rest)" by (auto simp: fgetc_def split: list.splits)
    moreover have "drop 2 ((x # xs) @ rest) = tl (xs @ rest)"
      by (simp only: append_Cons numeral_2_eq_2 drop_Suc drop_0 list.sel)
    ultimately show ?thesis using x st True cf i
      by (subst tag_name_loop.simps) (simp add: to_char_def)
  next
    case False
    with Cons.prems obtain y ys where xs: "xs = y # ys" by (cases xs) auto
    have "tag_name_loop (Some (hd xs)) (i + 1) (b[i := x]) (tl xs @ rest) =
        (Inl BufferOverflow, drop (XML_BUFFER_LENGTH + 1 - (i + 1)) (xs @ rest))"
      using Cons.prems False xs by (intro Cons.IH) simp_all
    moreover have "drop (XML_BUFFER_LENGTH + 1 - (i + 1)) (xs @ rest)
        = drop (XML_BUFFER_LENGTH + 1 - i) ((x # xs) @ rest)"
      using Cons.prems(4) by (simp add: Suc_diff_le drop_Cons')
    ultimately show ?thesis using x st False xs
      by (subst tag_name_loop.simps) (simp add: to_char_def fgetc_def)
  qed
qed

text \<open>
  Claim C4. Take any input whose tag name has at least \<^verbatim>\<open>XML_BUFFER_LENGTH\<close>
  characters: an optional \<open><\<close>, an optional \<open>/\<close>, then that many characters none of
  which ends a name. \<^verbatim>\<open>readXMLTag\<close> stores the first \<^verbatim>\<open>XML_BUFFER_LENGTH\<close> of them, reads
  one character more, and fails with \<open>BufferOverflow\<close>. It is not the outcome
  \<open>OutOfBounds\<close>: no store fell outside the scratch buffer.
\<close>

theorem readXMLTag_long_name:
  assumes "XML_BUFFER_LENGTH \<le> length name" and "list_all name_char name"
    and "pre = [] \<or> pre = ''<'' \<or> pre = ''/'' \<or> pre = ''</''"
  shows "readXMLTag (pre @ name @ rest) =
           (Inl BufferOverflow, drop (XML_BUFFER_LENGTH + 1) (name @ rest))"
proof -
  from assms(1) obtain x xs where name: "name = x # xs"
    by (cases name) (auto simp: XML_BUFFER_LENGTH_def)
  from assms(2) have all: "\<forall>c\<in>set name. name_char c" by (simp add: list_all_iff)
  with name have x: "x \<noteq> CHR ''<''" "x \<noteq> CHR ''/''" by (auto simp: name_char_def)
  have len: "length new_buffer = XML_BUFFER_LENGTH" by (simp add: new_buffer_def)
  have pos: "0 < XML_BUFFER_LENGTH" "1 < XML_BUFFER_LENGTH" by (simp_all add: XML_BUFFER_LENGTH_def)
  have cl: "tag_name_loop (Some x) 0 new_buffer (xs @ rest) =
      (Inl BufferOverflow, drop (XML_BUFFER_LENGTH + 1) (name @ rest))"
    using tag_name_loop_overflow [of name 0 new_buffer rest] all assms(1) len pos name
    by simp
  from assms(1) name obtain y ys where xs: "xs = y # ys"
    by (cases xs) (auto simp: XML_BUFFER_LENGTH_def)
  have st0: "store 0 x new_buffer = Some (new_buffer[0 := x])"
    using len pos by (simp add: store_def)
  have "tag_name_loop (Some (hd xs)) 1 (new_buffer[0 := x]) (tl xs @ rest) =
      (Inl BufferOverflow, drop (XML_BUFFER_LENGTH + 1 - 1) (xs @ rest))"
    using all assms(1) len pos name xs
    by (intro tag_name_loop_overflow) simp_all
  then have op: "tag_name_loop (Some y) 1 (new_buffer[0 := x]) (ys @ rest) =
      (Inl BufferOverflow, drop (XML_BUFFER_LENGTH + 1) (name @ rest))"
    using name xs pos by (simp add: drop_Cons')
  from assms(3) consider "pre = []" | "pre = ''<''" | "pre = ''/''" | "pre = ''</''" by blast
  then show ?thesis
  proof cases
    case 1
    with x st0 op name xs show ?thesis
      by (simp add: readXMLTag_def fgetc_def to_char_def)
  next
    case 2
    with x st0 op name xs show ?thesis
      by (simp add: readXMLTag_def fgetc_def to_char_def)
  next
    case 3
    with x cl name show ?thesis
      by (simp add: readXMLTag_def fgetc_def to_char_def)
  next
    case 4
    with x cl name show ?thesis
      by (simp add: readXMLTag_def fgetc_def to_char_def)
  qed
qed

theorem readXMLTag_long_name_witness:
  "XML_BUFFER_LENGTH \<le> length (replicate 200 (CHR ''n''))
   \<and> list_all name_char (replicate 200 (CHR ''n''))
   \<and> readXMLTag (''<'' @ replicate 200 (CHR ''n'') @ ''>'') = (Inl BufferOverflow, [])"
  using readXMLTag_long_name [of "replicate 200 (CHR ''n'')" "''<''" "''>''"]
  by (simp add: XML_BUFFER_LENGTH_def name_char_def list_all_iff)

subsection \<open>Predicate queries\<close>

text \<open>
  Claim C2 asks \<^verbatim>\<open>getXMLNode("item?id=2", firstSibling)\<close> to return the second of the
  siblings \<^verbatim>\<open><item id="1"/><item id="2"/>\<close>. On the tree parsed from
  \<^verbatim>\<open><r><item id="1"/><item id="2"/></r>\<close> the siblings are the nodes 1 and 2, and node 2
  is named \<open>item\<close> and owns the attribute \<open>id\<close> with value \<open>2\<close>; yet the code returns
  \<^verbatim>\<open>NULL\<close>, as it does for \<open>id=9\<close>. The loop that reads the predicate stores the \<open>=\<close>
  that ends the attribute name and then skips the first character of the value: it
  looks for an attribute named \<open>id=\<close> with the empty value.
\<close>

theorem getXMLNode_predicate_never_matches:
  \<open>fst (parseXMLFile ''<r><item id="1"/><item id="2"/></r>'') = Inr (items_heap, 0)
   \<and> getXMLNode ''item?id=2'' items_heap (Some 1) = Inr None
   \<and> getXMLNode ''item?id=9'' items_heap (Some 1) = Inr None
   \<and> node_segment ''item?id=2'' = Inr (Some (''item'', Some (''id='', ''''), CHR 0x00, 11))\<close>
  by code_simp

subsection \<open>Walks and the scan of a sibling list\<close>

lemma follow_chain:
  "follow k nx n p = Some xs \<longleftrightarrow> chain nx n p xs \<and> length xs \<le> k"
proof (induction k nx n p arbitrary: xs rule: follow.induct)
  case (1 fuel nx n)
  show ?case by (cases xs) auto
next
  case (2 nx n a)
  show ?case by (cases xs) auto
next
  case (3 k nx n a)
  show ?case
  proof (cases xs)
    case Nil
    then show ?thesis by auto
  next
    case (Cons y ys)
    show ?thesis
    proof (cases "a < n")
      case True
      with "3.IH" [OF True, of ys] Cons show ?thesis by auto
    next
      case False
      with Cons show ?thesis by auto
    qed
  qed
qed

lemma chain_bounds: "chain nx n p xs \<Longrightarrow> \<forall>a\<in>set xs. a < n"
  by (induction xs arbitrary: p) auto

lemma chain_unique: "chain nx n p xs \<Longrightarrow> chain nx n p ys \<Longrightarrow> xs = ys"
proof (induction xs arbitrary: p ys)
  case Nil
  then show ?case by (cases ys) auto
next
  case (Cons x xs)
  then show ?case by (cases ys) auto
qed

lemma chain_suffix: "chain nx n p (us @ a # vs) \<Longrightarrow> chain nx n (nx a) vs"
  by (induction us arbitrary: p) auto

lemma chain_distinct: "chain nx n p xs \<Longrightarrow> distinct xs"
proof (induction xs arbitrary: p)
  case Nil
  then show ?case by simp
next
  case (Cons x xs)
  then have rest: "chain nx n (nx x) xs" by simp
  have "x \<notin> set xs"
  proof
    assume "x \<in> set xs"
    then obtain us vs where xs: "xs = us @ x # vs" by (auto simp: in_set_conv_decomp)
    with rest have "chain nx n (nx x) vs" by (auto dest: chain_suffix)
    with rest have "xs = vs" by (rule chain_unique)
    with xs show False by simp
  qed
  with Cons.IH [OF rest] show ?case by simp
qed

lemma chain_length:
  assumes "chain nx n p xs"
  shows "length xs \<le> n"
proof -
  from assms have "distinct xs" by (rule chain_distinct)
  then have "length xs = card (set xs)" by (simp add: distinct_card)
  also from chain_bounds [OF assms] have "set xs \<subseteq> {..<n}" by auto
  then have "card (set xs) \<le> card {..<n}" by (intro card_mono) simp_all
  finally show ?thesis by simp
qed

lemma follow_iff_chain: "follow n nx n p = Some xs \<longleftrightarrow> chain nx n p xs"
  using follow_chain [of n nx n p xs] chain_length [of nx n p xs] by auto

lemma siblings_iff: "siblings h p = Some xs \<longleftrightarrow> chain (\<lambda>a. n_next (h ! a)) (length h) p xs"
  by (simp add: siblings_def follow_iff_chain)

lemma find_sibling_find:
  assumes "chain (\<lambda>a. n_next (h ! a)) (length h) p xs" and "length xs \<le> fuel"
    and "\<forall>a\<in>set xs. n_name (h ! a) \<noteq> None"
  shows "find_sibling fuel h seg p = Inr (find (\<lambda>a. n_name (h ! a) = Some seg) xs)"
  using assms
proof (induction xs arbitrary: p fuel)
  case Nil
  then show ?case by simp
next
  case (Cons a ys)
  then have p: "p = Some a" and a: "a < length h"
    and ys: "chain (\<lambda>a. n_next (h ! a)) (length h) (n_next (h ! a)) ys"
    by simp_all
  from Cons.prems obtain nm where nm: "n_name (h ! a) = Some nm" by auto
  show ?case
  proof (cases "seg = nm")
    case True
    with p a nm show ?thesis by simp
  next
    case False
    from Cons.prems obtain f where f: "fuel = Suc f" by (cases fuel) auto
    with Cons.prems have "find_sibling f h seg (n_next (h ! a))
        = Inr (find (\<lambda>a. n_name (h ! a) = Some seg) ys)"
      by (intro Cons.IH [OF ys]) auto
    with False p a nm f show ?thesis by simp
  qed
qed

lemma find_sibling_first_named:
  assumes "heap_ok h" and "siblings h p \<noteq> None"
  shows "find_sibling (length h) h seg p = Inr (first_named h p seg)"
proof -
  from assms(2) obtain xs where s: "siblings h p = Some xs" by auto
  then have xs: "chain (\<lambda>a. n_next (h ! a)) (length h) p xs" by (simp add: siblings_iff)
  then have b: "length xs \<le> length h" "\<forall>a\<in>set xs. a < length h"
    by (rule chain_length, rule chain_bounds)
  from assms(1) b(2) have "\<forall>a\<in>set xs. n_name (h ! a) \<noteq> None"
    by (auto simp: heap_ok_def list_all_length)
  with xs b(1) have "find_sibling (length h) h seg p
      = Inr (find (\<lambda>a. n_name (h ! a) = Some seg) xs)"
    by (rule find_sibling_find)
  with s show ?thesis by (simp add: first_named_def)
qed

lemma first_named_in_heap:
  assumes "first_named h p seg = Some a"
  shows "a < length h"
proof -
  from assms obtain xs where s: "siblings h p = Some xs"
    and f: "find (\<lambda>a. n_name (h ! a) = Some seg) xs = Some a"
    by (auto simp: first_named_def split: option.splits)
  from f have "a \<in> set xs" by (auto simp: find_Some_iff)
  moreover from s have "\<forall>a\<in>set xs. a < length h"
    by (auto simp: siblings_iff dest: chain_bounds)
  ultimately show ?thesis by simp
qed

subsection \<open>What the path loops leave in the scratch buffer\<close>

lemma c_str_terminated:
  assumes "list_all (\<lambda>c. c \<noteq> CHR 0x00) s"
  shows "c_str (s @ CHR 0x00 # r) = s"
  using assms by (induction s) (simp_all add: c_str_def)

lemma store_after:
  assumes "length b = XML_BUFFER_LENGTH" and "length s < XML_BUFFER_LENGTH"
  shows "store (length s) c (s @ drop (length s) b) = Some (s @ c # drop (Suc (length s)) b)"
proof -
  from assms have "drop (length s) b = b ! length s # drop (Suc (length s)) b"
    by (simp add: Cons_nth_drop_Suc)
  then show ?thesis using assms by (simp add: store_def list_update_append)
qed

lemma seg_loop_reads:
  assumes "list_all (\<lambda>c. c \<noteq> CHR ''/'' \<and> c \<noteq> CHR '':'' \<and> c \<noteq> CHR ''$'' \<and> c \<noteq> CHR 0x00) s"
    and "d = CHR ''/'' \<or> d = CHR '':'' \<or> d = CHR ''$''"
    and "length b = XML_BUFFER_LENGTH" and "length done + length s < XML_BUFFER_LENGTH"
  shows "seg_loop (pre @ s @ d # rest) (length pre) (length done) (done @ drop (length done) b) =
           Inr (d, length pre + length s, length done + length s,
                done @ s @ drop (length done + length s) b)"
  using assms
proof (induction s arbitrary: pre "done")
  case Nil
  have "path_at (pre @ d # rest) (length pre) = Some d" by (simp add: path_at_def)
  with Nil.prems(2) show ?case by (subst seg_loop.simps) auto
next
  case (Cons x xs)
  have at: "path_at (pre @ (x # xs) @ d # rest) (length pre) = Some x"
    by (simp add: path_at_def nth_append)
  from Cons.prems have "drop (length done) b = b ! length done # drop (Suc (length done)) b"
    by (simp add: Cons_nth_drop_Suc)
  with Cons.prems have st: "store (length done) x (done @ drop (length done) b)
      = Some ((done @ [x]) @ drop (length (done @ [x])) b)"
    by (simp add: store_def list_update_append)
  have "seg_loop ((pre @ [x]) @ xs @ d # rest) (length (pre @ [x])) (length (done @ [x]))
          ((done @ [x]) @ drop (length (done @ [x])) b) =
        Inr (d, length (pre @ [x]) + length xs, length (done @ [x]) + length xs,
             (done @ [x]) @ xs @ drop (length (done @ [x]) + length xs) b)"
    using Cons.prems by (intro Cons.IH) simp_all
  then have rec: "seg_loop (pre @ (x # xs) @ d # rest) (Suc (length pre)) (Suc (length done))
          ((done @ [x]) @ drop (length (done @ [x])) b) =
        Inr (d, length pre + length (x # xs), length done + length (x # xs),
             done @ (x # xs) @ drop (length done + length (x # xs)) b)"
    by simp
  from Cons.prems(1) at st rec show ?case
    by (subst seg_loop.simps) (simp del: append_assoc)
qed

lemma seg_loop_segment:
  assumes "seg_ok s" and "d = CHR ''/'' \<or> d = CHR '':'' \<or> d = CHR ''$''"
  shows "\<exists>b r. seg_loop (pre @ s @ d # rest) (length pre) 0 new_buffer =
             Inr (d, length pre + length s, length s, b)
           \<and> store (length s) (CHR 0x00) b = Some (s @ CHR 0x00 # r)
           \<and> c_str (s @ CHR 0x00 # r) = s
           \<and> length (s @ CHR 0x00 # r) = XML_BUFFER_LENGTH"
proof -
  have len: "length new_buffer = XML_BUFFER_LENGTH" by (simp add: new_buffer_def)
  from assms(1) have s: "length s < XML_BUFFER_LENGTH"
    "list_all (\<lambda>c. c \<noteq> CHR ''/'' \<and> c \<noteq> CHR '':'' \<and> c \<noteq> CHR ''$'' \<and> c \<noteq> CHR 0x00) s"
    by (simp_all add: seg_ok_def)
  from s(2) have nul: "list_all (\<lambda>c. c \<noteq> CHR 0x00) s" by (simp add: list_all_iff)
  have "seg_loop (pre @ s @ d # rest) (length pre) (length ([]::char list))
          ([] @ drop (length ([]::char list)) new_buffer) =
        Inr (d, length pre + length s, length ([]::char list) + length s,
             [] @ s @ drop (length ([]::char list) + length s) new_buffer)"
    using s(2) assms(2) len s(1) by (intro seg_loop_reads) simp_all
  then have "seg_loop (pre @ s @ d # rest) (length pre) 0 new_buffer =
        Inr (d, length pre + length s, length s, s @ drop (length s) new_buffer)"
    by simp
  moreover have "store (length s) (CHR 0x00) (s @ drop (length s) new_buffer)
      = Some (s @ CHR 0x00 # drop (Suc (length s)) new_buffer)"
    using len s(1) by (rule store_after)
  moreover have "c_str (s @ CHR 0x00 # drop (Suc (length s)) new_buffer) = s"
    using nul by (rule c_str_terminated)
  moreover have "length (s @ CHR 0x00 # drop (Suc (length s)) new_buffer) = XML_BUFFER_LENGTH"
    using len s(1) by simp
  ultimately show ?thesis by blast
qed

lemma attr_name_loop_reads:
  assumes "list_all (\<lambda>c. c \<noteq> CHR 0x00) s"
    and "length b = XML_BUFFER_LENGTH" and "length done + length s < XML_BUFFER_LENGTH"
  shows "attr_name_loop (pre @ s) (length pre) (length done) (done @ drop (length done) b) =
           Inr (length pre + length s, length done + length s,
                done @ s @ drop (length done + length s) b)"
  using assms
proof (induction s arbitrary: pre "done")
  case Nil
  have "path_at pre (length pre) = Some (CHR 0x00)" by (simp add: path_at_def)
  then show ?case by (subst attr_name_loop.simps) simp
next
  case (Cons x xs)
  have at: "path_at (pre @ x # xs) (length pre) = Some x"
    by (simp add: path_at_def nth_append)
  from Cons.prems have "drop (length done) b = b ! length done # drop (Suc (length done)) b"
    by (simp add: Cons_nth_drop_Suc)
  with Cons.prems have st: "store (length done) x (done @ drop (length done) b)
      = Some ((done @ [x]) @ drop (length (done @ [x])) b)"
    by (simp add: store_def list_update_append)
  have "attr_name_loop ((pre @ [x]) @ xs) (length (pre @ [x])) (length (done @ [x]))
          ((done @ [x]) @ drop (length (done @ [x])) b) =
        Inr (length (pre @ [x]) + length xs, length (done @ [x]) + length xs,
             (done @ [x]) @ xs @ drop (length (done @ [x]) + length xs) b)"
    using Cons.prems by (intro Cons.IH) simp_all
  then have rec: "attr_name_loop (pre @ x # xs) (Suc (length pre)) (Suc (length done))
          ((done @ [x]) @ drop (length (done @ [x])) b) =
        Inr (length pre + length (x # xs), length done + length (x # xs),
             done @ (x # xs) @ drop (length done + length (x # xs)) b)"
    by simp
  from Cons.prems(1) at st rec show ?case
    by (subst attr_name_loop.simps) (simp del: append_assoc)
qed

subsection \<open>The value query follows the path\<close>

lemma getXMLValue_loop_end: "getXMLValue_loop h path n (length path) = Inr None"
proof -
  have "seg_loop path (length path) 0 new_buffer = Inr (CHR 0x00, length path, 0, new_buffer)"
    by (subst seg_loop.simps) (simp add: path_at_def)
  moreover have "store 0 (CHR 0x00) new_buffer \<noteq> None"
    by (simp add: store_def new_buffer_def XML_BUFFER_LENGTH_def)
  ultimately show ?thesis
    by (subst getXMLValue_loop.simps) auto
qed

lemma heap_ok_children:
  assumes "heap_ok h" and "a < length h"
  shows "siblings h (n_first (h ! a)) \<noteq> None"
    and "list_all (\<lambda>(an, av). an \<noteq> None) (attrs (n_attr (h ! a)))"
  using assms by (auto simp: heap_ok_def list_all_length)

lemma getXMLValue_loop_descend:
  assumes "heap_ok h" and "siblings h p \<noteq> None" and "list_all seg_ok dirs"
  shows "getXMLValue_loop h (pre @ slash_path dirs @ rest) p (length pre) =
           (case descend h p dirs of
              None \<Rightarrow> Inr None
            | Some q \<Rightarrow> getXMLValue_loop h (pre @ slash_path dirs @ rest) q
                          (length pre + length (slash_path dirs)))"
  using assms(2,3)
proof (induction dirs arbitrary: pre p)
  case Nil
  show ?case by (simp add: slash_path_def)
next
  case (Cons s ds)
  let ?path = "pre @ slash_path (s # ds) @ rest"
  have path: "?path = pre @ s @ CHR ''/'' # (slash_path ds @ rest)"
    by (simp add: slash_path_def)
  from Cons.prems have s: "seg_ok s" by simp
  from seg_loop_segment [OF s, of "CHR ''/''" pre "slash_path ds @ rest"]
  obtain b r where seg: "seg_loop ?path (length pre) 0 new_buffer =
        Inr (CHR ''/'', length pre + length s, length s, b)"
    and st: "store (length s) (CHR 0x00) b = Some (s @ CHR 0x00 # r)"
    and cs: "c_str (s @ CHR 0x00 # r) = s"
    unfolding path by auto
  have fs: "find_sibling (length h) h s p = Inr (first_named h p s)"
    using assms(1) Cons.prems(1) by (rule find_sibling_first_named)
  show ?case
  proof (cases "first_named h p s")
    case None
    with seg st cs fs show ?thesis
      by (subst getXMLValue_loop.simps) simp
  next
    case (Some a)
    then have a: "a < length h" by (rule first_named_in_heap)
    have step: "getXMLValue_loop h ?path p (length pre) =
        getXMLValue_loop h ?path (n_first (h ! a)) (length pre + length s + 1)"
      using seg st cs fs Some by (subst getXMLValue_loop.simps) simp
    have path': "?path = (pre @ s @ ''/'') @ slash_path ds @ rest"
      by (simp add: slash_path_def)
    have len: "length (pre @ s @ ''/'') + length (slash_path ds)
        = length pre + length (slash_path (s # ds))"
      by (simp add: slash_path_def)
    have ih: "getXMLValue_loop h ((pre @ s @ ''/'') @ slash_path ds @ rest) (n_first (h ! a))
            (length (pre @ s @ ''/'')) =
        (case descend h (n_first (h ! a)) ds of
           None \<Rightarrow> Inr None
         | Some q \<Rightarrow> getXMLValue_loop h ((pre @ s @ ''/'') @ slash_path ds @ rest) q
                       (length (pre @ s @ ''/'') + length (slash_path ds)))"
      using heap_ok_children(1) [OF assms(1) a] Cons.prems(2) by (intro Cons.IH) simp_all
    have "getXMLValue_loop h ?path (n_first (h ! a)) (length pre + length s + 1) =
        (case descend h (n_first (h ! a)) ds of
           None \<Rightarrow> Inr None
         | Some q \<Rightarrow> getXMLValue_loop h ?path q
                       (length pre + length (slash_path (s # ds))))"
      using ih unfolding len path' [symmetric] by simp
    with step Some show ?thesis by simp
  qed
qed

lemma getXMLValue_loop_value:
  assumes "heap_ok h" and "siblings h p \<noteq> None" and "seg_ok s"
  shows "getXMLValue_loop h (pre @ s @ ''$'') p (length pre) =
           Inr (case first_named h p s of None \<Rightarrow> None | Some a \<Rightarrow> n_value (h ! a))"
proof -
  let ?path = "pre @ s @ ''$''"
  from seg_loop_segment [OF assms(3), of "CHR ''$''" pre "[]"]
  obtain b r where seg: "seg_loop ?path (length pre) 0 new_buffer =
        Inr (CHR ''$'', length pre + length s, length s, b)"
    and st: "store (length s) (CHR 0x00) b = Some (s @ CHR 0x00 # r)"
    and cs: "c_str (s @ CHR 0x00 # r) = s"
    by auto
  have fs: "find_sibling (length h) h s p = Inr (first_named h p s)"
    using assms(1,2) by (rule find_sibling_first_named)
  have e: "getXMLValue_loop h ?path q (length pre + length s + 1) = Inr None" for q
    using getXMLValue_loop_end [of h ?path q] by simp
  show ?thesis
  proof (cases "first_named h p s")
    case None
    with seg st cs fs show ?thesis
      by (subst getXMLValue_loop.simps) simp
  next
    case (Some a)
    with seg st cs fs e show ?thesis
      by (subst getXMLValue_loop.simps) (simp split: option.splits)
  qed
qed

lemma find_attr_value:
  assumes "list_all (\<lambda>(an, av). an \<noteq> None) (attr_list a)"
  shows "\<exists>r. find_attr name a = Inr r \<and>
           (case r of None \<Rightarrow> None | Some x \<Rightarrow> a_value x) = attr_value (Some a) name"
  using assms
proof (induction name a rule: find_attr.induct)
  case (1 name n v nx)
  from "1.prems" obtain nm where nm: "n = Some nm" by auto
  show ?case
  proof (cases "name = nm")
    case True
    with nm show ?thesis by (simp add: attr_value_def)
  next
    case False
    show ?thesis
    proof (cases nx)
      case None
      with nm False show ?thesis by (auto simp: attr_value_def)
    next
      case (Some a')
      with "1.prems" have "list_all (\<lambda>(an, av). an \<noteq> None) (attr_list a')" by simp
      from "1.IH" [OF nm _ Some this] False
      obtain r where "find_attr name a' = Inr r"
        "(case r of None \<Rightarrow> None | Some x \<Rightarrow> a_value x) = attr_value (Some a') name"
        by auto
      with nm False Some show ?thesis
        by (cases a') (auto simp: attr_value_def)
    qed
  qed
qed

lemma getXMLValue_loop_attribute:
  assumes "heap_ok h" and "siblings h p \<noteq> None" and "seg_ok s" and "attr_ok an"
  shows "getXMLValue_loop h (pre @ s @ '':'' @ an) p (length pre) =
           Inr (case first_named h p s of
                  None \<Rightarrow> None
                | Some a \<Rightarrow> attr_value (n_attr (h ! a)) an)"
proof -
  let ?path = "pre @ s @ '':'' @ an"
  from seg_loop_segment [OF assms(3), of "CHR '':''" pre an]
  obtain b r where seg: "seg_loop ?path (length pre) 0 new_buffer =
        Inr (CHR '':'', length pre + length s, length s, b)"
    and st: "store (length s) (CHR 0x00) b = Some (s @ CHR 0x00 # r)"
    and cs: "c_str (s @ CHR 0x00 # r) = s"
    and len: "length (s @ CHR 0x00 # r) = XML_BUFFER_LENGTH"
    by auto
  have fs: "find_sibling (length h) h s p = Inr (first_named h p s)"
    using assms(1,2) by (rule find_sibling_first_named)
  from assms(4) have an: "length an < XML_BUFFER_LENGTH" "list_all (\<lambda>c. c \<noteq> CHR 0x00) an"
    by (simp_all add: attr_ok_def)
  let ?b1 = "s @ CHR 0x00 # r"
  have "attr_name_loop ((pre @ s @ '':'') @ an) (length (pre @ s @ '':''))
          (length ([]::char list)) ([] @ drop (length ([]::char list)) ?b1) =
        Inr (length (pre @ s @ '':'') + length an, length ([]::char list) + length an,
             [] @ an @ drop (length ([]::char list) + length an) ?b1)"
    using an(2) len an(1) by (intro attr_name_loop_reads) simp_all
  then have al: "attr_name_loop ?path (length pre + length s + 1) 0 ?b1 =
        Inr (length ?path, length an, an @ drop (length an) ?b1)"
    by simp
  have st2: "store (length an) (CHR 0x00) (an @ drop (length an) ?b1)
      = Some (an @ CHR 0x00 # drop (Suc (length an)) ?b1)"
    using len an(1) by (rule store_after)
  have cs2: "c_str (an @ CHR 0x00 # drop (Suc (length an)) ?b1) = an"
    using an(2) by (rule c_str_terminated)
  have e: "getXMLValue_loop h ?path q (length ?path) = Inr None" for q
    by (rule getXMLValue_loop_end)
  show ?thesis
  proof (cases "first_named h p s")
    case None
    with seg st cs fs show ?thesis
      by (subst getXMLValue_loop.simps) simp
  next
    case (Some a)
    then have a: "a < length h" by (rule first_named_in_heap)
    show ?thesis
    proof (cases "n_attr (h ! a)")
      case None
      with Some seg st cs fs al st2 cs2 show ?thesis
        by (subst getXMLValue_loop.simps) (simp add: attr_value_def)
    next
      case at: (Some x)
      with heap_ok_children(2) [OF assms(1) a]
      have "list_all (\<lambda>(an, av). an \<noteq> None) (attr_list x)" by (simp add: attrs_def)
      from find_attr_value [OF this, of an]
      obtain fr where fr: "find_attr an x = Inr fr"
        "(case fr of None \<Rightarrow> None | Some y \<Rightarrow> a_value y) = attr_value (Some x) an"
        by auto
      with Some at seg st cs fs al st2 cs2 e show ?thesis
        by (subst getXMLValue_loop.simps) (auto split: option.splits)
    qed
  qed
qed

lemma descend_siblings:
  assumes "heap_ok h"
  shows "siblings h p \<noteq> None \<Longrightarrow> descend h p dirs = Some q \<Longrightarrow> siblings h q \<noteq> None"
proof (induction dirs arbitrary: p)
  case Nil
  then show ?case by simp
next
  case (Cons s ds)
  from Cons.prems(2) obtain a where a: "first_named h p s = Some a"
    and d: "descend h (n_first (h ! a)) ds = Some q"
    by (auto split: option.splits)
  from a have "a < length h" by (rule first_named_in_heap)
  with assms have "siblings h (n_first (h ! a)) \<noteq> None" by (rule heap_ok_children(1))
  then show ?case using d by (rule Cons.IH)
qed

lemma getXMLValue_value_path:
  assumes "heap_ok h" and "siblings h root \<noteq> None" and "list_all seg_ok dirs" and "seg_ok seg"
  shows "getXMLValue (slash_path dirs @ seg @ ''$'') h root =
           Inr (case resolve h root dirs seg of None \<Rightarrow> None | Some a \<Rightarrow> n_value (h ! a))"
proof -
  have d: "getXMLValue_loop h ([] @ slash_path dirs @ seg @ ''$'') root (length ([]::char list)) =
      (case descend h root dirs of
         None \<Rightarrow> Inr None
       | Some q \<Rightarrow> getXMLValue_loop h ([] @ slash_path dirs @ seg @ ''$'') q
                     (length ([]::char list) + length (slash_path dirs)))"
    using assms(1,2,3) by (rule getXMLValue_loop_descend)
  show ?thesis
  proof (cases "descend h root dirs")
    case None
    with d show ?thesis by (simp add: getXMLValue_def resolve_def)
  next
    case (Some q)
    with assms(1,2) have "siblings h q \<noteq> None" by (rule descend_siblings)
    from getXMLValue_loop_value [OF assms(1) this assms(4), of "slash_path dirs"] Some d
    show ?thesis by (simp add: getXMLValue_def resolve_def)
  qed
qed

lemma getXMLValue_attribute_path:
  assumes "heap_ok h" and "siblings h root \<noteq> None" and "list_all seg_ok dirs" and "seg_ok seg"
    and "attr_ok an"
  shows "getXMLValue (slash_path dirs @ seg @ '':'' @ an) h root =
           Inr (case resolve h root dirs seg of
                  None \<Rightarrow> None
                | Some a \<Rightarrow> attr_value (n_attr (h ! a)) an)"
proof -
  have d: "getXMLValue_loop h ([] @ slash_path dirs @ seg @ '':'' @ an) root
        (length ([]::char list)) =
      (case descend h root dirs of
         None \<Rightarrow> Inr None
       | Some q \<Rightarrow> getXMLValue_loop h ([] @ slash_path dirs @ seg @ '':'' @ an) q
                     (length ([]::char list) + length (slash_path dirs)))"
    using assms(1,2,3) by (rule getXMLValue_loop_descend)
  show ?thesis
  proof (cases "descend h root dirs")
    case None
    with d show ?thesis by (simp add: getXMLValue_def resolve_def)
  next
    case (Some q)
    with assms(1,2) have "siblings h q \<noteq> None" by (rule descend_siblings)
    from getXMLValue_loop_attribute [OF assms(1) this assms(4,5), of "slash_path dirs"] Some d
    show ?thesis by (simp add: getXMLValue_def resolve_def)
  qed
qed

text \<open>
  Claim C7. On the tree parsed from \<^verbatim>\<open><root><foo><bar baz="1">hi</bar></foo></root>\<close>,
  \<^verbatim>\<open>getXMLValue\<close> returns \<open>hi\<close> for \<^verbatim>\<open>root/foo/bar$\<close>, \<open>1\<close> for \<^verbatim>\<open>root/foo/bar:baz\<close> and
  \<^verbatim>\<open>NULL\<close> for \<^verbatim>\<open>root/foo/missing$\<close>. In general, on a heap whose nodes and attributes
  are named and whose sibling lists end, and for segments the grammar allows,
  \<^verbatim>\<open>getXMLValue\<close> resolves the path as the specification says: each segment followed
  by \<open>/\<close> selects the first sibling of that exact name at the current level and moves
  to the list that starts at its \<^verbatim>\<open>first\<close> child, the last segment selects a node in
  the same way, and the result is \<^verbatim>\<open>NULL\<close> as soon as no sibling matches; otherwise it is
  the value of the node after \<open>$\<close>, and the value of its first attribute of the given
  name after \<open>:\<close>.
\<close>

theorem getXMLValue_resolves_path:
  \<open>fst (parseXMLFile ''<root><foo><bar baz="1">hi</bar></foo></root>'') = Inr (bar_heap, 0)
   \<and> getXMLValue ''root/foo/bar$'' bar_heap (Some 0) = Inr (Some ''hi'')
   \<and> getXMLValue ''root/foo/bar:baz'' bar_heap (Some 0) = Inr (Some ''1'')
   \<and> getXMLValue ''root/foo/missing$'' bar_heap (Some 0) = Inr None
   \<and> (heap_ok h \<longrightarrow> siblings h root \<noteq> None \<longrightarrow> list_all seg_ok dirs \<longrightarrow> seg_ok seg \<longrightarrow>
        getXMLValue (slash_path dirs @ seg @ ''$'') h root =
          Inr (case resolve h root dirs seg of None \<Rightarrow> None | Some a \<Rightarrow> n_value (h ! a))
        \<and> (attr_ok an \<longrightarrow>
           getXMLValue (slash_path dirs @ seg @ '':'' @ an) h root =
             Inr (case resolve h root dirs seg of
                    None \<Rightarrow> None
                  | Some a \<Rightarrow> attr_value (n_attr (h ! a)) an)))\<close>
proof (intro conjI impI)
  show \<open>fst (parseXMLFile ''<root><foo><bar baz="1">hi</bar></foo></root>'') = Inr (bar_heap, 0)\<close>
    by code_simp
  show "getXMLValue ''root/foo/bar$'' bar_heap (Some 0) = Inr (Some ''hi'')"
    by code_simp
  show "getXMLValue ''root/foo/bar:baz'' bar_heap (Some 0) = Inr (Some ''1'')"
    by code_simp
  show "getXMLValue ''root/foo/missing$'' bar_heap (Some 0) = Inr None"
    by code_simp
next
  assume ok: "heap_ok h" "siblings h root \<noteq> None" "list_all seg_ok dirs" "seg_ok seg"
  then show "getXMLValue (slash_path dirs @ seg @ ''$'') h root =
          Inr (case resolve h root dirs seg of None \<Rightarrow> None | Some a \<Rightarrow> n_value (h ! a))"
    by (rule getXMLValue_value_path)
  assume "attr_ok an"
  with ok show "getXMLValue (slash_path dirs @ seg @ '':'' @ an) h root =
             Inr (case resolve h root dirs seg of
                    None \<Rightarrow> None
                  | Some a \<Rightarrow> attr_value (n_attr (h ! a)) an)"
    by (rule getXMLValue_attribute_path)
qed

theorem getXMLValue_resolves_path_witness:
  "heap_ok bar_heap \<and> siblings bar_heap (Some 0) \<noteq> None
   \<and> list_all seg_ok [''root'', ''foo''] \<and> seg_ok ''bar'' \<and> attr_ok ''baz''
   \<and> resolve bar_heap (Some 0) [''root'', ''foo''] ''bar'' = Some 2
   \<and> getXMLValue (slash_path [''root'', ''foo''] @ ''bar'' @ ''$'') bar_heap (Some 0) =
       Inr (n_value (bar_heap ! 2))
   \<and> getXMLValue (slash_path [''root'', ''foo''] @ ''bar'' @ '':'' @ ''baz'') bar_heap (Some 0) =
       Inr (attr_value (n_attr (bar_heap ! 2)) ''baz'')"
proof -
  have h: "heap_ok bar_heap" "siblings bar_heap (Some 0) \<noteq> None"
    "list_all seg_ok [''root'', ''foo'']" "seg_ok ''bar''" "attr_ok ''baz''"
    by code_simp+
  have r: "resolve bar_heap (Some 0) [''root'', ''foo''] ''bar'' = Some 2"
    by code_simp
  from getXMLValue_resolves_path [of bar_heap "Some 0" "[''root'', ''foo'']" "''bar''" "''baz''"]
    h r show ?thesis by simp
qed

text \<open>
  Claim C9. When the node segments of a path all resolve and the path ends in \<open>$\<close>,
  \<^verbatim>\<open>getXMLValue\<close> returns the stored text value of the resolved node; when that node has
  no stored value the query still ends normally (the result is not one of the
  undefined outcomes) and returns \<^verbatim>\<open>NULL\<close>.
\<close>

theorem getXMLValue_dollar_value:
  assumes "heap_ok h" and "siblings h root \<noteq> None" and "list_all seg_ok dirs" and "seg_ok seg"
    and "resolve h root dirs seg = Some a"
  shows "getXMLValue (slash_path dirs @ seg @ ''$'') h root = Inr (n_value (h ! a))"
  using getXMLValue_value_path [OF assms(1-4)] assms(5) by simp

theorem getXMLValue_dollar_value_witness:
  "heap_ok bar_heap \<and> siblings bar_heap (Some 0) \<noteq> None
   \<and> list_all seg_ok [''root''] \<and> seg_ok ''foo''
   \<and> resolve bar_heap (Some 0) [''root''] ''foo'' = Some 1
   \<and> n_value (bar_heap ! 1) = None
   \<and> getXMLValue (slash_path [''root''] @ ''foo'' @ ''$'') bar_heap (Some 0) = Inr None
   \<and> resolve bar_heap (Some 0) [''root'', ''foo''] ''bar'' = Some 2
   \<and> getXMLValue (slash_path [''root'', ''foo''] @ ''bar'' @ ''$'') bar_heap (Some 0)
       = Inr (Some ''hi'')"
proof -
  have h: "heap_ok bar_heap" "siblings bar_heap (Some 0) \<noteq> None"
    "list_all seg_ok [''root'']" "seg_ok ''foo''"
    "list_all seg_ok [''root'', ''foo'']" "seg_ok ''bar''"
    by code_simp+
  have r: "resolve bar_heap (Some 0) [''root''] ''foo'' = Some 1"
    "resolve bar_heap (Some 0) [''root'', ''foo''] ''bar'' = Some 2"
    by code_simp+
  have v: "n_value (bar_heap ! 1) = None" "n_value (bar_heap ! 2) = Some ''hi''"
    by code_simp+
  from getXMLValue_dollar_value [OF h(1,2,3,4) r(1)]
    getXMLValue_dollar_value [OF h(1,2,5,6) r(2)] h r v
  show ?thesis by simp
qed

subsection \<open>Children lists\<close>

lemma chain_cong:
  "chain nx n p xs \<Longrightarrow> \<forall>x\<in>set xs. nx' x = nx x \<Longrightarrow> n \<le> n' \<Longrightarrow> chain nx' n' p xs"
  by (induction xs arbitrary: p) auto

lemma chain_hd: "chain nx n p xs \<Longrightarrow> p = (if xs = [] then None else Some (hd xs))"
  by (cases xs) auto

lemma chain_extend:
  assumes "chain nx n p (us @ [l])" and "\<forall>x\<in>set us. nx' x = nx x"
    and "chain nx' n (nx' l) vs"
  shows "chain nx' n p (us @ l # vs)"
  using assms by (induction us arbitrary: p) auto

lemma node_invD:
  assumes "node_inv h p"
  obtains xs where "chain (\<lambda>a. n_next (h ! a)) (length h) (n_first (h ! p)) xs"
    and "n_cc (h ! p) = int (length xs)"
    and "n_last (h ! p) = (if xs = [] then None else Some (last xs))"
    and "\<forall>x\<in>set xs. n_parent (h ! x) = Some p"
proof (cases "siblings h (n_first (h ! p))")
  case None
  with assms show ?thesis by (simp add: node_inv_def)
next
  case (Some xs)
  then have "chain (\<lambda>a. n_next (h ! a)) (length h) (n_first (h ! p)) xs"
    by (simp add: siblings_iff)
  moreover from assms Some have "n_cc (h ! p) = int (length xs)"
    "n_last (h ! p) = (if xs = [] then None else Some (last xs))"
    "list_all (\<lambda>x. n_parent (h ! x) = Some p) xs"
    by (simp_all add: node_inv_def)
  ultimately show ?thesis using that by (simp add: list_all_iff)
qed

lemma node_invI:
  assumes "chain (\<lambda>a. n_next (h ! a)) (length h) (n_first (h ! p)) xs"
    and "n_cc (h ! p) = int (length xs)"
    and "n_last (h ! p) = (if xs = [] then None else Some (last xs))"
    and "\<forall>x\<in>set xs. n_parent (h ! x) = Some p"
  shows "node_inv h p"
proof -
  from assms(1) have s: "siblings h (n_first (h ! p)) = Some xs" by (simp add: siblings_iff)
  from assms(1) have f: "n_first (h ! p) = (if xs = [] then None else Some (hd xs))"
    by (rule chain_hd)
  from assms(4) have l: "list_all (\<lambda>x. n_parent (h ! x) = Some p) xs"
    by (simp add: list_all_iff)
  show ?thesis unfolding node_inv_def s using assms(2,3) f l by simp
qed

lemma tree_inv_iff: "tree_inv h \<longleftrightarrow> (\<forall>p<length h. node_inv h p)"
  by (auto simp: tree_inv_def list_all_iff)

text \<open>A node keeps its invariant in a heap that grew or changed without touching the
  fields the invariant reads.\<close>

lemma node_inv_frame:
  assumes "node_inv h p" and "p < length h" and "length h \<le> length h'"
    and nx: "\<And>x. x < length h \<Longrightarrow> n_next (h' ! x) = n_next (h ! x)"
    and pa: "\<And>x. x < length h \<Longrightarrow> n_parent (h' ! x) = n_parent (h ! x)"
    and fi: "n_first (h' ! p) = n_first (h ! p)"
    and la: "n_last (h' ! p) = n_last (h ! p)"
    and cc: "n_cc (h' ! p) = n_cc (h ! p)"
  shows "node_inv h' p"
proof -
  from assms(1) obtain xs where c: "chain (\<lambda>a. n_next (h ! a)) (length h) (n_first (h ! p)) xs"
    and r: "n_cc (h ! p) = int (length xs)"
      "n_last (h ! p) = (if xs = [] then None else Some (last xs))"
      "\<forall>x\<in>set xs. n_parent (h ! x) = Some p"
    by (rule node_invD)
  from c have b: "\<forall>x\<in>set xs. x < length h" by (rule chain_bounds)
  with nx have same: "\<forall>x\<in>set xs. n_next (h' ! x) = n_next (h ! x)" by simp
  from c have "chain (\<lambda>a. n_next (h' ! a)) (length h') (n_first (h ! p)) xs"
  proof (rule chain_cong)
    show "\<forall>x\<in>set xs. n_next (h' ! x) = n_next (h ! x)" by (rule same)
    show "length h \<le> length h'" by (rule assms(3))
  qed
  then have "chain (\<lambda>a. n_next (h' ! a)) (length h') (n_first (h' ! p)) xs"
    by (simp only: fi)
  moreover have "n_cc (h' ! p) = int (length xs)" using r(1) cc by simp
  moreover have "n_last (h' ! p) = (if xs = [] then None else Some (last xs))"
    using r(2) la by simp
  moreover have "\<forall>x\<in>set xs. n_parent (h' ! x) = Some p" using r(3) b pa by simp
  ultimately show ?thesis by (rule node_invI)
qed

subsection \<open>What an attachment changes\<close>

lemma addXMLNodeToParent_fields:
  assumes "n_parent (h ! c) = None" and "n_previous (h ! c) = None" and "n_next (h ! c) = None"
    and "c < length h" and "p < length h"
    and "\<And>l. n_last (h ! p) = Some l \<Longrightarrow> l < length h"
    and "x < length h"
  shows "length (addXMLNodeToParent (Some p) (Some c) h) = length h"
    and "n_parent (addXMLNodeToParent (Some p) (Some c) h ! x)
          = (if x = c then Some p else n_parent (h ! x))"
    and "n_next (addXMLNodeToParent (Some p) (Some c) h ! x)
          = (if n_last (h ! p) = Some x then Some c else n_next (h ! x))"
    and "n_first (addXMLNodeToParent (Some p) (Some c) h ! x)
          = (if x = p \<and> n_last (h ! p) = None then Some c else n_first (h ! x))"
    and "n_last (addXMLNodeToParent (Some p) (Some c) h ! x)
          = (if x = p then Some c else n_last (h ! x))"
    and "n_cc (addXMLNodeToParent (Some p) (Some c) h ! x)
          = (if x = p then n_cc (h ! x) + 1 else n_cc (h ! x))"
    and "n_name (addXMLNodeToParent (Some p) (Some c) h ! x) = n_name (h ! x)"
    and "n_value (addXMLNodeToParent (Some p) (Some c) h ! x) = n_value (h ! x)"
    and "n_attr (addXMLNodeToParent (Some p) (Some c) h ! x) = n_attr (h ! x)"
proof -
  show "length (addXMLNodeToParent (Some p) (Some c) h) = length h"
    using assms(1-3) by (simp add: addXMLNodeToParent_def Let_def split: option.splits)
  show "n_parent (addXMLNodeToParent (Some p) (Some c) h ! x)
          = (if x = c then Some p else n_parent (h ! x))"
    using assms by (cases "n_last (h ! p)")
      (simp_all add: addXMLNodeToParent_def Let_def nth_list_update)
  show "n_next (addXMLNodeToParent (Some p) (Some c) h ! x)
          = (if n_last (h ! p) = Some x then Some c else n_next (h ! x))"
    using assms by (cases "n_last (h ! p)")
      (auto simp add: addXMLNodeToParent_def Let_def nth_list_update)
  show "n_first (addXMLNodeToParent (Some p) (Some c) h ! x)
          = (if x = p \<and> n_last (h ! p) = None then Some c else n_first (h ! x))"
    using assms by (cases "n_last (h ! p)")
      (auto simp add: addXMLNodeToParent_def Let_def nth_list_update)
  show "n_last (addXMLNodeToParent (Some p) (Some c) h ! x)
          = (if x = p then Some c else n_last (h ! x))"
    using assms by (cases "n_last (h ! p)")
      (auto simp add: addXMLNodeToParent_def Let_def nth_list_update)
  show "n_cc (addXMLNodeToParent (Some p) (Some c) h ! x)
          = (if x = p then n_cc (h ! x) + 1 else n_cc (h ! x))"
    using assms by (cases "n_last (h ! p)")
      (auto simp add: addXMLNodeToParent_def Let_def nth_list_update)
  show "n_name (addXMLNodeToParent (Some p) (Some c) h ! x) = n_name (h ! x)"
    using assms by (cases "n_last (h ! p)")
      (auto simp add: addXMLNodeToParent_def Let_def nth_list_update)
  show "n_value (addXMLNodeToParent (Some p) (Some c) h ! x) = n_value (h ! x)"
    using assms by (cases "n_last (h ! p)")
      (auto simp add: addXMLNodeToParent_def Let_def nth_list_update)
  show "n_attr (addXMLNodeToParent (Some p) (Some c) h ! x) = n_attr (h ! x)"
    using assms by (cases "n_last (h ! p)")
      (auto simp add: addXMLNodeToParent_def Let_def nth_list_update)
qed

lemma addXMLNodeToParent_tree_inv:
  assumes inv: "tree_inv h" and p: "p < length h" and c: "c < length h"
    and g: "n_parent (h ! c) = None" "n_previous (h ! c) = None" "n_next (h ! c) = None"
  shows "tree_inv (addXMLNodeToParent (Some p) (Some c) h)"
proof -
  let ?h = "addXMLNodeToParent (Some p) (Some c) h"
  from inv p have "node_inv h p" by (simp add: tree_inv_iff)
  then obtain xs where xs: "chain (\<lambda>a. n_next (h ! a)) (length h) (n_first (h ! p)) xs"
    and xr: "n_cc (h ! p) = int (length xs)"
      "n_last (h ! p) = (if xs = [] then None else Some (last xs))"
      "\<forall>x\<in>set xs. n_parent (h ! x) = Some p"
    by (rule node_invD)
  from xs have xb: "\<forall>x\<in>set xs. x < length h" by (rule chain_bounds)
  from xs have xd: "distinct xs" by (rule chain_distinct)
  have lv: "l < length h" if "n_last (h ! p) = Some l" for l
    using that xr(2) xb by (cases "xs = []") auto
  note f = addXMLNodeToParent_fields [OF g c p lv]
  from g(1) xr(3) have cx: "c \<notin> set xs" by auto
  have len: "length ?h = length h" using f(1) [of p] p by simp
  have "node_inv ?h q" if q: "q < length h" for q
  proof (cases "q = p")
    case False
    from inv q have "node_inv h q" by (simp add: tree_inv_iff)
    then obtain ys where ys: "chain (\<lambda>a. n_next (h ! a)) (length h) (n_first (h ! q)) ys"
      and yr: "n_cc (h ! q) = int (length ys)"
        "n_last (h ! q) = (if ys = [] then None else Some (last ys))"
        "\<forall>x\<in>set ys. n_parent (h ! x) = Some q"
      by (rule node_invD)
    from ys have yb: "\<forall>x\<in>set ys. x < length h" by (rule chain_bounds)
    have same: "\<forall>y\<in>set ys. n_next (?h ! y) = n_next (h ! y)"
    proof
      fix y assume y: "y \<in> set ys"
      have "n_last (h ! p) \<noteq> Some y"
      proof
        assume "n_last (h ! p) = Some y"
        with xr(2) have "y \<in> set xs" by (cases "xs = []") auto
        with xr(3) yr(3) y False show False by auto
      qed
      with f(3) [of y] y yb show "n_next (?h ! y) = n_next (h ! y)" by simp
    qed
    from ys have "chain (\<lambda>a. n_next (?h ! a)) (length ?h) (n_first (h ! q)) ys"
    proof (rule chain_cong)
      show "\<forall>y\<in>set ys. n_next (?h ! y) = n_next (h ! y)" by (rule same)
      show "length h \<le> length ?h" using len by simp
    qed
    then have "chain (\<lambda>a. n_next (?h ! a)) (length ?h) (n_first (?h ! q)) ys"
      using f(4) [of q] q False by simp
    moreover have "n_cc (?h ! q) = int (length ys)" using f(6) [of q] q False yr(1) by simp
    moreover have "n_last (?h ! q) = (if ys = [] then None else Some (last ys))"
      using f(5) [of q] q False yr(2) by simp
    moreover have "\<forall>x\<in>set ys. n_parent (?h ! x) = Some q"
    proof
      fix y assume y: "y \<in> set ys"
      with yr(3) g(1) have "y \<noteq> c" by auto
      with f(2) [of y] y yb yr(3) show "n_parent (?h ! y) = Some q" by simp
    qed
    ultimately show ?thesis by (rule node_invI)
  next
    case True
    have pc: "n_parent (?h ! x) = Some p" if "x \<in> set (xs @ [c])" for x
      using that f(2) [of x] xb c xr(3) by auto
    have nc: "n_next (?h ! c) = None"
    proof -
      have "n_last (h ! p) \<noteq> Some c" using xr(2) cx by (cases "xs = []") auto
      with f(3) [of c] c g(3) show ?thesis by simp
    qed
    have "chain (\<lambda>a. n_next (?h ! a)) (length ?h) (n_first (?h ! p)) (xs @ [c])"
    proof (cases "xs = []")
      case e: True
      with xr(2) have "n_last (h ! p) = None" by simp
      with f(4) [of p] p have "n_first (?h ! p) = Some c" by simp
      with e nc c len show ?thesis by simp
    next
      case ne: False
      then obtain us l where ul: "xs = us @ [l]" by (cases xs rule: rev_cases) auto
      with xr(2) have last: "n_last (h ! p) = Some l" by simp
      with f(4) [of p] p have first: "n_first (?h ! p) = n_first (h ! p)" by simp
      from ul xb have l: "l < length h" by simp
      from last f(3) [of l] l have nl: "n_next (?h ! l) = Some c" by simp
      have us: "\<forall>x\<in>set us. n_next (?h ! x) = n_next (h ! x)"
      proof
        fix x assume x: "x \<in> set us"
        with ul xd have "x \<noteq> l" by auto
        with last f(3) [of x] x ul xb show "n_next (?h ! x) = n_next (h ! x)" by simp
      qed
      from xs ul have "chain (\<lambda>a. n_next (h ! a)) (length ?h) (n_first (?h ! p)) (us @ [l])"
        using first len by simp
      then have "chain (\<lambda>a. n_next (?h ! a)) (length ?h) (n_first (?h ! p)) (us @ l # [c])"
      proof (rule chain_extend)
        show "\<forall>x\<in>set us. n_next (?h ! x) = n_next (h ! x)" by (rule us)
        show "chain (\<lambda>a. n_next (?h ! a)) (length ?h) (n_next (?h ! l)) [c]"
          using nl nc c len by simp
      qed
      with ul show ?thesis by simp
    qed
    moreover have "n_cc (?h ! p) = int (length (xs @ [c]))" using f(6) [of p] p xr(1) by simp
    moreover have "n_last (?h ! p) = (if xs @ [c] = [] then None else Some (last (xs @ [c])))"
      using f(5) [of p] p by simp
    moreover have "\<forall>x\<in>set (xs @ [c]). n_parent (?h ! x) = Some p" using pc by blast
    ultimately have "node_inv ?h p" by (rule node_invI)
    with True show ?thesis by simp
  qed
  then show ?thesis by (simp add: tree_inv_iff len)
qed

subsection \<open>Invariants of the parse loop\<close>

lemma readXMLNodeValue_heap:
  assumes "readXMLNodeValue n h fl = (Inr h1, fl1)"
  shows "h1 = h \<or> (\<exists>v. h1 = h[n := setXMLNodeValue v (h ! n)])"
  using assms
  by (auto simp: readXMLNodeValue_def split: prod.splits sum.splits option.splits)


text \<open>
  A property of heaps that the three heap operations of the loop preserve holds when
  the loop ends, for the heap it returns; the node \<^verbatim>\<open>current\<close> it returns is in the
  heap and has no parent.
\<close>

lemma parse_loop_invariant:
  assumes val: "\<And>h n v. P h \<Longrightarrow> n < length h \<Longrightarrow> P (h[n := setXMLNodeValue v (h ! n)])"
    and child: "\<And>h cur tag. P h \<Longrightarrow> cur < length h \<Longrightarrow> tag_named tag \<Longrightarrow>
        P (addXMLNodeToParent (Some cur) (Some (length h))
            (initXMLNodeFromXMLTag (length h) tag (h @ [initXMLNode])))
        \<and> length (addXMLNodeToParent (Some cur) (Some (length h))
            (initXMLNodeFromXMLTag (length h) tag (h @ [initXMLNode]))) = Suc (length h)"
    and up: "\<And>h cur p. P h \<Longrightarrow> cur < length h \<Longrightarrow> n_parent (h ! cur) = Some p \<Longrightarrow> p < length h"
    and named: "\<And>fl tag fl'. readXMLTag fl = (Inr tag, fl') \<Longrightarrow> tag_named tag"
  shows "P h \<Longrightarrow> current < length h \<Longrightarrow> parse_loop current h fl = (Inr (h', current'), fl')
    \<Longrightarrow> P h' \<and> current' < length h' \<and> n_parent (h' ! current') = None"
proof (induction current h fl rule: parse_loop.induct)
  case (1 current h fl)
  from "1.prems"(3) obtain h1 f1 where rv: "readXMLNodeValue current h fl = (Inr h1, f1)"
    by (subst (asm) parse_loop.simps) (auto split: prod.splits sum.splits)
  from rv "1.prems"(3) obtain tag f2 where rt: "readXMLTag f1 = (Inr tag, f2)"
    by (subst (asm) parse_loop.simps) (auto split: prod.splits sum.splits)
  from readXMLNodeValue_heap [OF rv] "1.prems"(1,2) val
  have P1: "P h1" and len1: "length h1 = length h" by auto
  with "1.prems"(2) have cur1: "current < length h1" by simp
  from rt have tn: "tag_named tag" by (rule named)
  let ?h2 = "addXMLNodeToParent (Some current) (Some (length h1))
              (initXMLNodeFromXMLTag (length h1) tag (h1 @ [initXMLNode]))"
  from child [OF P1 cur1 tn] have P2: "P ?h2" and len2: "length ?h2 = Suc (length h1)"
    by simp_all
  have cn: "(length h1, h1 @ [initXMLNode]) = createXMLNode h1" by (simp add: createXMLNode_def)
  consider (op_tag) "t_type tag = OPENING" | (un_tag) "t_type tag = UNIQUE"
    | (cl_tag) "t_type tag = CLOSING" | (uk_tag) "t_type tag = UNKNOWN"
    by (cases "t_type tag") auto
  then show ?case
  proof cases
    case op_tag
    with "1.prems"(3) rv rt have "parse_loop (length h1) ?h2 f2 = (Inr (h', current'), fl')"
      by (subst (asm) parse_loop.simps) (simp add: createXMLNode_def)
    with "1.IH"(1) [OF rv [symmetric] refl rt [symmetric] refl op_tag cn P2] len2
    show ?thesis by simp
  next
    case un_tag
    with "1.prems"(3) rv rt have "parse_loop current ?h2 f2 = (Inr (h', current'), fl')"
      by (subst (asm) parse_loop.simps) (simp add: createXMLNode_def)
    with "1.IH"(2) [OF rv [symmetric] refl rt [symmetric] refl _ un_tag cn P2] un_tag len2 cur1
    show ?thesis by simp
  next
    case cl_tag
    show ?thesis
    proof (cases "n_parent (h1 ! current)")
      case None
      with cl_tag "1.prems"(3) rv rt have "h' = h1" "current' = current"
        by (subst (asm) parse_loop.simps, simp)+
      with P1 cur1 None show ?thesis by simp
    next
      case (Some p)
      with cl_tag "1.prems"(3) rv rt have "parse_loop p h1 f2 = (Inr (h', current'), fl')"
        by (subst (asm) parse_loop.simps) simp
      moreover from up [OF P1 cur1 Some] have "p < length h1" .
      ultimately show ?thesis
        using "1.IH"(3) [OF rv [symmetric] refl rt [symmetric] refl _ _ cl_tag Some P1] cl_tag
        by simp
    qed
  next
    case uk_tag
    with "1.prems"(3) rv rt have "parse_loop current h1 f2 = (Inr (h', current'), fl')"
      by (subst (asm) parse_loop.simps) simp
    with "1.IH"(4) [OF rv [symmetric] refl rt [symmetric] refl _ _ _ P1 cur1] uk_tag
    show ?thesis by simp
  qed
qed

lemma readXMLAttribute_named:
  assumes "readXMLAttribute fl = (Inr a, fl')"
  shows "a_name a \<noteq> None \<and> a_next a = None"
  using assms unfolding readXMLAttribute_def createXMLAttribute_def
  by (auto simp: Let_def split: prod.splits sum.splits option.splits if_splits)

lemma addAttributeToXMLTag_attrs:
  assumes "a_next a = None"
  shows "attrs (t_attr (addAttributeToXMLTag (Some a) tag)) = (a_name a, a_value a) # attrs (t_attr tag)"
  using assms by (cases a; cases "t_attr tag") (simp_all add: addAttributeToXMLTag_def)

lemma addAttributeToXMLTag_name [simp]:
  "t_name (addAttributeToXMLTag attr tag) = t_name tag"
  by (simp add: addAttributeToXMLTag_def split: option.splits)

lemma tag_attr_loop_named:
  "tag_attr_loop c tag fl = (Inr (c', tag'), fl') \<Longrightarrow> tag_named tag \<Longrightarrow> tag_named tag'"
proof (induction c tag fl rule: tag_attr_loop.induct)
  case (1 charBuffer tag fl)
  show ?case
  proof (cases "charBuffer = Some (CHR '' '')")
    case False
    with "1.prems" show ?thesis by (subst (asm) tag_attr_loop.simps) simp
  next
    case sp: True
    obtain ra f1 where ra: "readXMLAttribute fl = (ra, f1)" by (cases "readXMLAttribute fl")
    obtain c f2 where cf: "fgetc f1 = (c, f2)" by (cases "fgetc f1")
    from sp ra "1.prems"(1) have no: "ra \<noteq> Inl OutOfBounds"
      by (subst (asm) tag_attr_loop.simps) auto
    let ?tag = "addAttributeToXMLTag (case ra of Inl e \<Rightarrow> None | Inr attr \<Rightarrow> Some attr) tag"
    from sp ra cf no "1.prems"(1) have rec: "tag_attr_loop c ?tag f2 = (Inr (c', tag'), fl')"
      by (subst (asm) tag_attr_loop.simps) simp
    have "tag_named ?tag"
    proof (cases ra)
      case (Inl e)
      with "1.prems"(2) show ?thesis by (simp add: addAttributeToXMLTag_def)
    next
      case (Inr a)
      with ra have "a_name a \<noteq> None \<and> a_next a = None" by (simp add: readXMLAttribute_named)
      with Inr "1.prems"(2) show ?thesis
        by (simp add: tag_named_def addAttributeToXMLTag_attrs)
    qed
    with "1.IH" [OF sp ra [symmetric] no cf [symmetric] rec] show ?thesis by simp
  qed
qed

lemma readXMLTag_named:
  assumes "readXMLTag fl = (Inr tag, fl')"
  shows "tag_named tag"
proof -
  have an: "tag_named t'" if "after_name c t f = (Inr (c', t'), f')" "tag_named t"
    for c t f c' t' f'
    using that
    by (auto simp: after_name_def tag_named_def split: if_splits prod.splits)
  have aa: "tag_named t'" if "after_attributes c t f = (Inr (c', t'), f')" "tag_named t"
    for c t f c' t' f'
  proof (cases "t_type t = UNKNOWN")
    case False
    with that show ?thesis by (simp add: after_attributes_def)
  next
    case True
    with that(1) obtain c1 t1 f1 where l: "tag_attr_loop c t f = (Inr (c1, t1), f1)"
      and t': "t_name t' = t_name t1 \<and> t_attr t' = t_attr t1"
      by (auto simp: after_attributes_def split: if_splits prod.splits sum.splits)
    from l that(2) have "tag_named t1" by (rule tag_attr_loop_named)
    with t' show ?thesis by (simp add: tag_named_def)
  qed
  have start: "tag_named (setXMLTagName nm (createXMLTag\<lparr>t_type := ty\<rparr>))"
    "tag_named (setXMLTagName nm createXMLTag)" for nm ty
    by (simp_all add: tag_named_def setXMLTagName_def createXMLTag_def)
  have step: "tag_named t3"
    if "after_name c1 t0 f1 = (Inr (c2, t2), f2)"
      and "after_attributes c2 t2 f2 = (Inr (c3, t3), f3)" and "tag_named t0"
    for c1 t0 f1 c2 t2 f2 c3 t3 f3
    using aa [OF that(2) an [OF that(1,3)]] .
  from assms show ?thesis
    unfolding readXMLTag_def Let_def
    by (auto split: prod.splits sum.splits option.splits if_splits
        dest: step [OF _ _ start(1)] step [OF _ _ start(2)])
qed

lemma move_attributes_links:
  "n_parent (move_attributes tag n) = n_parent n \<and>
   n_previous (move_attributes tag n) = n_previous n \<and>
   n_next (move_attributes tag n) = n_next n \<and>
   n_first (move_attributes tag n) = n_first n \<and>
   n_last (move_attributes tag n) = n_last n \<and>
   n_cc (move_attributes tag n) = n_cc n \<and>
   n_name (move_attributes tag n) = n_name n \<and>
   n_value (move_attributes tag n) = n_value n"
proof (induction tag n rule: move_attributes.induct)
  case (1 tag n)
  show ?case
  proof (cases "t_attr tag")
    case None
    then have "move_attributes tag n = n" by (subst move_attributes.simps) simp
    then show ?thesis by simp
  next
    case (Some d)
    obtain a tag' where del: "deleteAttributeFromXMLTag tag = (Some a, tag')"
      using Some by (auto simp: deleteAttributeFromXMLTag_def)
    have mv: "move_attributes tag n = move_attributes tag' (addAttributeToXMLNode a n)"
      by (subst move_attributes.simps) (simp add: Some del)
    from "1.IH" [OF _ del [symmetric] refl] Some
    show ?thesis unfolding mv by (simp add: addAttributeToXMLNode_def)
  qed
qed


lemma fresh_node_links:
  "n_parent (fresh_node tag) = None" "n_previous (fresh_node tag) = None"
  "n_next (fresh_node tag) = None" "n_first (fresh_node tag) = None"
  "n_last (fresh_node tag) = None" "n_cc (fresh_node tag) = 0"
  "n_name (fresh_node tag) = t_name tag"
  "attrs (n_attr (fresh_node tag)) = rev (attrs (t_attr tag))"
  by (simp_all add: fresh_node_def move_attributes_links move_attributes_attrs
      initXMLNode_def setXMLNodeName_def split: option.splits)

lemma init_created:
  "initXMLNodeFromXMLTag (length h) tag (h @ [initXMLNode]) = h @ [fresh_node tag]"
  by (simp add: initXMLNodeFromXMLTag_def fresh_node_def)

lemma tree_inv_fresh:
  assumes "tree_inv h"
  shows "tree_inv (h @ [fresh_node tag])"
proof -
  have "node_inv (h @ [fresh_node tag]) q" if "q < Suc (length h)" for q
  proof (cases "q < length h")
    case True
    with assms have "node_inv h q" by (simp add: tree_inv_iff)
    then show ?thesis
    proof (rule node_inv_frame)
      show "q < length h" by (rule True)
    qed (simp_all add: nth_append True)
  next
    case False
    with that have q: "q = length h" by simp
    have "chain (\<lambda>a. n_next ((h @ [fresh_node tag]) ! a)) (length (h @ [fresh_node tag]))
        (n_first ((h @ [fresh_node tag]) ! q)) []"
      by (simp add: q fresh_node_links)
    then show ?thesis
      by (rule node_invI) (simp_all add: q fresh_node_links)
  qed
  then show ?thesis by (simp add: tree_inv_iff)
qed

lemma parents_in_iff:
  "parents_in h \<longleftrightarrow> (\<forall>x<length h. \<forall>p. n_parent (h ! x) = Some p \<longrightarrow> p < length h)"
  by (auto simp: parents_in_def list_all_length split: option.splits)

text \<open>Creating a child and attaching it under a node of the heap.\<close>

lemma attach_child:
  fixes tag :: XML_Tag
  assumes "tree_inv h" and "cur < length h"
  defines "h' \<equiv> addXMLNodeToParent (Some cur) (Some (length h))
                  (initXMLNodeFromXMLTag (length h) tag (h @ [initXMLNode]))"
  shows "tree_inv h'" and "length h' = Suc (length h)"
    and "\<And>x. x < Suc (length h) \<Longrightarrow>
          n_parent (h' ! x) = (if x = length h then Some cur else n_parent (h ! x))"
    and "\<And>x. x < length h \<Longrightarrow> n_name (h' ! x) = n_name (h ! x) \<and> n_attr (h' ! x) = n_attr (h ! x)"
    and "n_name (h' ! length h) = t_name tag"
    and "attrs (n_attr (h' ! length h)) = rev (attrs (t_attr tag))"
    and "\<And>x. x < Suc (length h) \<Longrightarrow> n_parent (h' ! x) = None
          \<Longrightarrow> x < length h \<and> n_parent (h ! x) = None \<and> n_next (h' ! x) = n_next (h ! x)"
proof -
  let ?h2 = "h @ [fresh_node tag]"
  let ?c = "length h"
  have h': "h' = addXMLNodeToParent (Some cur) (Some ?c) ?h2"
    by (simp add: h'_def init_created)
  have t2: "tree_inv ?h2" using assms(1) by (rule tree_inv_fresh)
  have g: "n_parent (?h2 ! ?c) = None" "n_previous (?h2 ! ?c) = None" "n_next (?h2 ! ?c) = None"
    by (simp_all add: fresh_node_links)
  have c: "?c < length ?h2" and p: "cur < length ?h2" using assms(2) by simp_all
  show "tree_inv h'" unfolding h' using t2 p c g by (rule addXMLNodeToParent_tree_inv)
  from t2 p have "node_inv ?h2 cur" by (simp add: tree_inv_iff)
  then obtain xs where xs: "chain (\<lambda>a. n_next (?h2 ! a)) (length ?h2) (n_first (?h2 ! cur)) xs"
    and xl: "n_last (?h2 ! cur) = (if xs = [] then None else Some (last xs))"
    and xp: "\<forall>x\<in>set xs. n_parent (?h2 ! x) = Some cur"
    by (rule node_invD)
  have lx: "l \<in> set xs" if "n_last (?h2 ! cur) = Some l" for l
    using that xl by (cases "xs = []") auto
  have lv: "l < length ?h2" if "n_last (?h2 ! cur) = Some l" for l
    using lx [OF that] chain_bounds [OF xs] by simp
  note f = addXMLNodeToParent_fields [OF g c p lv]
  show "length h' = Suc (length h)" unfolding h' using f(1) [of cur] p by simp
  show "n_parent (h' ! x) = (if x = length h then Some cur else n_parent (h ! x))"
    if "x < Suc (length h)" for x
    unfolding h' using f(2) [of x] that by (simp add: nth_append)
  show "n_name (h' ! x) = n_name (h ! x) \<and> n_attr (h' ! x) = n_attr (h ! x)"
    if "x < length h" for x
    unfolding h' using f(7,9) [of x] that by (simp add: nth_append)
  show "n_name (h' ! length h) = t_name tag"
    unfolding h' using f(7) [of ?c] by (simp add: fresh_node_links)
  show "attrs (n_attr (h' ! length h)) = rev (attrs (t_attr tag))"
    unfolding h' using f(9) [of ?c] by (simp add: fresh_node_links)
  show "x < length h \<and> n_parent (h ! x) = None \<and> n_next (h' ! x) = n_next (h ! x)"
    if "x < Suc (length h)" "n_parent (h' ! x) = None" for x
  proof -
    from that f(2) [of x] have x: "x < length h" "n_parent (h ! x) = None"
      unfolding h' by (auto simp: nth_append split: if_splits)
    have "n_last (?h2 ! cur) \<noteq> Some x"
    proof
      assume "n_last (?h2 ! cur) = Some x"
      then have "x \<in> set xs" by (rule lx)
      with xp have "n_parent (?h2 ! x) = Some cur" by simp
      with x show False by (simp add: nth_append)
    qed
    with f(3) [of x] x show ?thesis unfolding h' by (simp add: nth_append)
  qed
qed

lemma tree_inv_value:
  assumes "tree_inv h" and "n < length h"
  shows "tree_inv (h[n := setXMLNodeValue v (h ! n)])"
proof -
  have "node_inv (h[n := setXMLNodeValue v (h ! n)]) q" if q: "q < length h" for q
  proof -
    from assms(1) q have "node_inv h q" by (simp add: tree_inv_iff)
    then show ?thesis
    proof (rule node_inv_frame)
      show "q < length h" by (rule q)
    qed (simp_all add: nth_list_update setXMLNodeValue_def assms(2))
  qed
  then show ?thesis by (simp add: tree_inv_iff)
qed

lemma parse_inv_value:
  assumes "parse_inv h" and "n < length h"
  shows "parse_inv (h[n := setXMLNodeValue v (h ! n)])"
proof -
  from assms have "tree_inv (h[n := setXMLNodeValue v (h ! n)])"
    by (simp add: parse_inv_def tree_inv_value)
  moreover have "parents_in (h[n := setXMLNodeValue v (h ! n)])"
    using assms by (auto simp: parse_inv_def parents_in_iff nth_list_update setXMLNodeValue_def)
  ultimately show ?thesis using assms
    by (auto simp: parse_inv_def nth_list_update setXMLNodeValue_def)
qed

lemma parse_inv_child:
  fixes tag :: XML_Tag
  assumes "parse_inv h" and "cur < length h" and "tag_named tag"
  defines "h' \<equiv> addXMLNodeToParent (Some cur) (Some (length h))
                  (initXMLNodeFromXMLTag (length h) tag (h @ [initXMLNode]))"
  shows "parse_inv h' \<and> length h' = Suc (length h)"
proof -
  from assms(1) have t: "tree_inv h" by (simp add: parse_inv_def)
  note a = attach_child [OF t assms(2), where tag = tag, folded h'_def]
  have 1: "tree_inv h'" by (rule a(1))
  have len: "length h' = Suc (length h)" by (rule a(2))
  have 2: "parents_in h'"
    unfolding parents_in_iff
  proof (intro allI impI)
    fix x p assume x: "x < length h'" and xp: "n_parent (h' ! x) = Some p"
    from x len have x': "x < Suc (length h)" by simp
    show "p < length h'"
    proof (cases "x = length h")
      case True
      with a(3) [OF x'] xp assms(2) len show ?thesis by simp
    next
      case False
      with x' have "x < length h" by simp
      moreover from False a(3) [OF x'] xp have "n_parent (h ! x) = Some p" by simp
      ultimately have "p < length h" using assms(1) by (auto simp: parse_inv_def parents_in_iff)
      with len show ?thesis by simp
    qed
  qed
  have 3: "n_name (h' ! x) \<noteq> None \<and> list_all (\<lambda>(an, av). an \<noteq> None) (attrs (n_attr (h' ! x)))"
    if "x < length h'" for x
  proof (cases "x = length h")
    case True
    with a(5,6) assms(3) show ?thesis by (simp add: tag_named_def)
  next
    case False
    with that len have x: "x < length h" by simp
    with a(4) [OF x] assms(1) show ?thesis by (simp add: parse_inv_def)
  qed
  have 4: "n_next (h' ! x) = None" if "x < length h'" "n_parent (h' ! x) = None" for x
  proof -
    from that len have "x < Suc (length h)" by simp
    from a(7) [OF this that(2)] assms(1) show ?thesis by (simp add: parse_inv_def)
  qed
  have 5: "n_parent (h' ! x) \<noteq> None" if "x < length h'" "0 < x" for x
  proof (cases "x = length h")
    case True
    from that len have "x < Suc (length h)" by simp
    from a(3) [OF this] True show ?thesis by simp
  next
    case False
    with that len have x: "x < length h" by simp
    then have "x < Suc (length h)" by simp
    from a(3) [OF this] False x that(2) assms(1) show ?thesis by (simp add: parse_inv_def)
  qed
  from 1 2 3 4 5 len show ?thesis by (simp add: parse_inv_def)
qed

lemma parse_loop_parse_inv:
  assumes "parse_inv h" and "current < length h"
    and "parse_loop current h fl = (Inr (h', current'), fl')"
  shows "parse_inv h' \<and> current' < length h' \<and> n_parent (h' ! current') = None"
  using _ _ _ _ assms
proof (rule parse_loop_invariant [where P = parse_inv])
  show "parse_inv (h[n := setXMLNodeValue v (h ! n)])" if "parse_inv h" "n < length h" for h n v
    using that by (rule parse_inv_value)
  show "parse_inv (addXMLNodeToParent (Some cur) (Some (length h))
            (initXMLNodeFromXMLTag (length h) tag (h @ [initXMLNode])))
        \<and> length (addXMLNodeToParent (Some cur) (Some (length h))
            (initXMLNodeFromXMLTag (length h) tag (h @ [initXMLNode]))) = Suc (length h)"
    if "parse_inv h" "cur < length h" "tag_named tag" for h cur tag
    using that by (rule parse_inv_child)
  show "p < length h" if "parse_inv h" "cur < length h" "n_parent (h ! cur) = Some p" for h cur p
    using that by (auto simp: parse_inv_def parents_in_iff)
  show "tag_named tag" if "readXMLTag fl = (Inr tag, fl')" for fl tag fl'
    using that by (rule readXMLTag_named)
qed

text \<open>The loop can only end at the root: the terminal check of \<^verbatim>\<open>parseXMLFile\<close> never
  fails.\<close>

lemma parse_loop_ends_at_root:
  assumes "parse_inv h" and "current < length h"
    and "parse_loop current h fl = (Inr (h', current'), fl')"
  shows "current' = 0"
proof -
  from parse_loop_parse_inv [OF assms]
  have "parse_inv h'" "current' < length h'" "n_parent (h' ! current') = None" by simp_all
  then show ?thesis by (auto simp: parse_inv_def)
qed

lemma parse_inv_first:
  assumes "tag_named tag"
  shows "parse_inv (initXMLNodeFromXMLTag 0 tag [initXMLNode])"
proof -
  have e: "initXMLNodeFromXMLTag 0 tag [initXMLNode] = [fresh_node tag]"
    using init_created [of "[]" tag] by simp
  have "tree_inv ([] @ [fresh_node tag])" by (rule tree_inv_fresh) (simp add: tree_inv_def)
  then show ?thesis using assms unfolding e
    by (simp add: parse_inv_def parents_in_def fresh_node_links tag_named_def)
qed

lemma parseXMLFile_parse_inv:
  assumes "parseXMLFile fl = (Inr (h, root), fl')"
  shows "parse_inv h \<and> root = 0 \<and> 0 < length h \<and> n_parent (h ! 0) = None"
proof -
  from assms obtain tag f1 where rt: "readXMLTag fl = (Inr tag, f1)"
    by (auto simp: parseXMLFile_def split: prod.splits sum.splits)
  then have "tag_named tag" by (rule readXMLTag_named)
  then have inv0: "parse_inv (initXMLNodeFromXMLTag 0 tag [initXMLNode])"
    by (rule parse_inv_first)
  have e: "initXMLNodeFromXMLTag 0 tag [initXMLNode] = [fresh_node tag]"
    using init_created [of "[]" tag] by simp
  have len0: "0 < length (initXMLNodeFromXMLTag 0 tag [initXMLNode])"
    by (simp add: e)
  show ?thesis
  proof (cases "t_type tag = UNIQUE")
    case True
    with assms rt have "h = [fresh_node tag]" "root = 0"
      by (auto simp: parseXMLFile_def createXMLNode_def e split: if_splits)
    with inv0 show ?thesis by (simp add: e fresh_node_links)
  next
    case False
    with assms rt obtain cur where
      l: "parse_loop 0 (initXMLNodeFromXMLTag 0 tag [initXMLNode]) f1 = (Inr (h, cur), fl')"
      and r: "root = 0"
      by (auto simp: parseXMLFile_def createXMLNode_def split: if_splits prod.splits sum.splits)
    from parse_loop_parse_inv [OF inv0 len0 l] parse_loop_ends_at_root [OF inv0 len0 l] r
    show ?thesis by auto
  qed
qed

lemma parseXMLFile_heap_ok:
  assumes "parseXMLFile fl = (Inr (h, root), fl')"
  shows "heap_ok h \<and> siblings h (Some root) \<noteq> None"
proof -
  from parseXMLFile_parse_inv [OF assms]
  have inv: "parse_inv h" and r: "root = 0" "0 < length h" "n_parent (h ! 0) = None"
    by simp_all
  have "n_name (h ! x) \<noteq> None \<and> list_all (\<lambda>(an, av). an \<noteq> None) (attrs (n_attr (h ! x))) \<and>
      siblings h (n_first (h ! x)) \<noteq> None" if x: "x < length h" for x
  proof -
    from inv x have "node_inv h x" by (simp add: parse_inv_def tree_inv_iff)
    then have "siblings h (n_first (h ! x)) \<noteq> None"
      by (auto simp: node_inv_def split: option.splits)
    with inv x show ?thesis by (simp add: parse_inv_def)
  qed
  then have "heap_ok h" by (simp add: heap_ok_def list_all_length)
  moreover from inv r have "n_next (h ! 0) = None" by (simp add: parse_inv_def)
  with r have "chain (\<lambda>a. n_next (h ! a)) (length h) (Some root) [0]" by simp
  then have "siblings h (Some root) = Some [0]" by (simp add: siblings_iff)
  ultimately show ?thesis by simp
qed

text \<open>
  Claim C8. In the heap of every successful parse, every node satisfies the structural
  invariant: the walk along \<^verbatim>\<open>next\<close> from \<^verbatim>\<open>first\<close> ends, \<^verbatim>\<open>cc\<close> is the number of nodes
  it visits, \<^verbatim>\<open>first\<close> is its head and \<^verbatim>\<open>last\<close> its final node, and the nodes visited
  point back to the node as their parent. Every attachment by \<^verbatim>\<open>addXMLNodeToParent\<close> of
  a node without parent or sibling keeps the invariant of the whole heap, makes the
  child the \<^verbatim>\<open>last\<close> one and adds exactly one to \<^verbatim>\<open>cc\<close>.
\<close>

theorem children_lists_consistent:
  "(parseXMLFile fl = (Inr (h, root), fl') \<longrightarrow> tree_inv h)
   \<and> (tree_inv h0 \<longrightarrow> p < length h0 \<longrightarrow> c < length h0 \<longrightarrow>
        n_parent (h0 ! c) = None \<longrightarrow> n_previous (h0 ! c) = None \<longrightarrow> n_next (h0 ! c) = None \<longrightarrow>
        tree_inv (addXMLNodeToParent (Some p) (Some c) h0) \<and>
        n_last (addXMLNodeToParent (Some p) (Some c) h0 ! p) = Some c \<and>
        n_cc (addXMLNodeToParent (Some p) (Some c) h0 ! p) = n_cc (h0 ! p) + 1)"
proof (intro conjI impI)
  assume "parseXMLFile fl = (Inr (h, root), fl')"
  then have "parse_inv h" by (simp add: parseXMLFile_parse_inv)
  then show "tree_inv h" by (simp add: parse_inv_def)
next
  assume inv: "tree_inv h0" and p: "p < length h0" and c: "c < length h0"
    and g: "n_parent (h0 ! c) = None" "n_previous (h0 ! c) = None" "n_next (h0 ! c) = None"
  from inv p c g show "tree_inv (addXMLNodeToParent (Some p) (Some c) h0)"
    by (rule addXMLNodeToParent_tree_inv)
  have lv: "l < length h0" if "n_last (h0 ! p) = Some l" for l
  proof -
    from inv p have "node_inv h0 p" by (simp add: tree_inv_iff)
    then obtain xs where "chain (\<lambda>a. n_next (h0 ! a)) (length h0) (n_first (h0 ! p)) xs"
      and "n_last (h0 ! p) = (if xs = [] then None else Some (last xs))"
      by (rule node_invD)
    with that chain_bounds [of "\<lambda>a. n_next (h0 ! a)" "length h0" "n_first (h0 ! p)" xs]
    show ?thesis by (cases "xs = []") auto
  qed
  note f = addXMLNodeToParent_fields [OF g c p lv]
  from f(5) [of p] p show "n_last (addXMLNodeToParent (Some p) (Some c) h0 ! p) = Some c"
    by simp
  from f(6) [of p] p
  show "n_cc (addXMLNodeToParent (Some p) (Some c) h0 ! p) = n_cc (h0 ! p) + 1" by simp
qed

theorem children_lists_consistent_witness:
  \<open>parseXMLFile ''<r><item id="1"/><item id="2"/></r>'' = (Inr (items_heap, 0), [])
   \<and> tree_inv items_heap
   \<and> tree_inv (items_heap @ [initXMLNode])
   \<and> tree_inv (addXMLNodeToParent (Some 0) (Some 3) (items_heap @ [initXMLNode]))
   \<and> n_last (addXMLNodeToParent (Some 0) (Some 3) (items_heap @ [initXMLNode]) ! 0) = Some 3
   \<and> n_cc (addXMLNodeToParent (Some 0) (Some 3) (items_heap @ [initXMLNode]) ! 0) = 3\<close>
proof -
  have p: \<open>parseXMLFile ''<r><item id="1"/><item id="2"/></r>'' = (Inr (items_heap, 0), [])\<close>
    by code_simp
  have t: "tree_inv (items_heap @ [initXMLNode])" by code_simp
  have g: "0 < length (items_heap @ [initXMLNode])" "3 < length (items_heap @ [initXMLNode])"
    "n_parent ((items_heap @ [initXMLNode]) ! 3) = None"
    "n_previous ((items_heap @ [initXMLNode]) ! 3) = None"
    "n_next ((items_heap @ [initXMLNode]) ! 3) = None"
    "n_cc ((items_heap @ [initXMLNode]) ! 0) = 2"
    by code_simp+
  from children_lists_consistent [THEN conjunct1, rule_format, OF p]
    children_lists_consistent [THEN conjunct2, rule_format, OF t g(1-5)] p t g(6)
  show ?thesis by simp
qed

subsection \<open>Attachment, parents and ancestors\<close>

lemma addXMLNodeToParent_unchanged:
  assumes "parent = None \<or> child = None \<or>
     (\<exists>c. child = Some c \<and>
        (n_parent (h ! c) \<noteq> None \<or> n_previous (h ! c) \<noteq> None \<or> n_next (h ! c) \<noteq> None))"
  shows "addXMLNodeToParent parent child h = h"
  using assms by (auto simp: addXMLNodeToParent_def split: option.splits)

lemma addXMLNodeToParent_parent:
  assumes "n_parent (h ! c) = None" and "n_previous (h ! c) = None" and "n_next (h ! c) = None"
    and "c < length h" and "p < length h" and "x < length h"
  shows "n_parent (addXMLNodeToParent (Some p) (Some c) h ! x)
          = (if x = c then Some p else n_parent (h ! x))"
    and "length (addXMLNodeToParent (Some p) (Some c) h) = length h"
proof -
  show "length (addXMLNodeToParent (Some p) (Some c) h) = length h"
    using assms(1-3) by (simp add: addXMLNodeToParent_def Let_def split: option.splits)
  show "n_parent (addXMLNodeToParent (Some p) (Some c) h ! x)
          = (if x = c then Some p else n_parent (h ! x))"
  proof (cases "n_last (h ! p)")
    case None
    with assms show ?thesis
      by (simp add: addXMLNodeToParent_def Let_def nth_list_update)
  next
    case (Some l)
    show ?thesis
    proof (cases "l < length h")
      case True
      with Some assms show ?thesis
        by (simp add: addXMLNodeToParent_def Let_def nth_list_update)
    next
      case False
      with Some assms show ?thesis
        by (simp add: addXMLNodeToParent_def Let_def nth_list_update list_update_beyond)
    qed
  qed
qed

lemma ancestors_iff:
  "ancestors h x = Some xs \<longleftrightarrow> chain (\<lambda>a. n_parent (h ! a)) (length h) (n_parent (h ! x)) xs"
  by (simp add: ancestors_def follow_iff_chain)

lemma acyclic_heap_iff:
  "acyclic_heap h \<longleftrightarrow>
     (\<forall>x<length h. \<exists>xs. chain (\<lambda>a. n_parent (h ! a)) (length h) (n_parent (h ! x)) xs)"
  by (auto simp: acyclic_heap_def list_all_iff ancestors_iff [symmetric])

lemma addXMLNodeToParent_acyclic:
  assumes ac: "acyclic_heap h"
    and g: "n_parent (h ! c) = None" "n_previous (h ! c) = None" "n_next (h ! c) = None"
    and c: "c < length h" and p: "p < length h"
    and anc: "ancestors h p = Some as" and out: "c \<notin> set (p # as)"
  shows "acyclic_heap (addXMLNodeToParent (Some p) (Some c) h)"
proof -
  let ?h = "addXMLNodeToParent (Some p) (Some c) h"
  let ?nx = "\<lambda>a. n_parent (h ! a)"
  let ?nx' = "\<lambda>a. n_parent (?h ! a)"
  have len: "length ?h = length h" using addXMLNodeToParent_parent(2) [OF g c p p] .
  have par: "?nx' x = (if x = c then Some p else ?nx x)" if "x < length h" for x
    using addXMLNodeToParent_parent(1) [OF g c p that] .
  from anc p have pa: "chain ?nx (length h) (Some p) (p # as)" by (simp add: ancestors_iff)
  have pa': "chain ?nx' (length h) (Some p) (p # as)"
    using pa
  proof (rule chain_cong)
    show "\<forall>x\<in>set (p # as). ?nx' x = ?nx x"
    proof
      fix x assume x: "x \<in> set (p # as)"
      with chain_bounds [OF pa] have "x < length h" by blast
      moreover from x out have "x \<noteq> c" by auto
      ultimately show "?nx' x = ?nx x" by (simp add: par)
    qed
  qed simp
  have "\<exists>ys. chain ?nx' (length h) (?nx' x) ys" if x: "x < length h" for x
  proof -
    from ac x obtain xs where "chain ?nx (length h) (?nx x) xs"
      by (auto simp: acyclic_heap_iff)
    with x have zs: "chain ?nx (length h) (Some x) (x # xs)" by simp
    have "\<exists>ys. chain ?nx' (length h) (Some x) ys"
    proof (cases "c \<in> set (x # xs)")
      case False
      from zs have "chain ?nx' (length h) (Some x) (x # xs)"
      proof (rule chain_cong)
        show "\<forall>y\<in>set (x # xs). ?nx' y = ?nx y"
        proof
          fix y assume y: "y \<in> set (x # xs)"
          with chain_bounds [OF zs] have "y < length h" by blast
          moreover from y False have "y \<noteq> c" by auto
          ultimately show "?nx' y = ?nx y" by (simp add: par)
        qed
      qed simp
      then show ?thesis by blast
    next
      case True
      then obtain us vs where d: "x # xs = us @ c # vs" by (meson split_list)
      with zs have "chain ?nx (length h) (?nx c) vs" by (auto dest: chain_suffix)
      with g(1) have vs: "vs = []" by (cases vs) auto
      from zs have "distinct (x # xs)" by (rule chain_distinct)
      with d have dist: "distinct (us @ c # vs)" by simp
      from zs d vs have "chain ?nx (length h) (Some x) (us @ [c])" by simp
      then have "chain ?nx' (length h) (Some x) (us @ c # p # as)"
      proof (rule chain_extend)
        show "\<forall>y\<in>set us. ?nx' y = ?nx y"
        proof
          fix y assume y: "y \<in> set us"
          with chain_bounds [OF zs] d have "y < length h" by auto
          moreover from y dist have "y \<noteq> c" by auto
          ultimately show "?nx' y = ?nx y" by (simp add: par)
        qed
        have nc: "?nx' c = Some p" using par [OF c] by simp
        show "chain ?nx' (length h) (?nx' c) (p # as)" unfolding nc by (rule pa')
      qed
      then show ?thesis by blast
    qed
    then obtain ys where ys: "chain ?nx' (length h) (Some x) ys" by blast
    then obtain ys' where "ys = x # ys'" by (cases ys) auto
    with ys show ?thesis by auto
  qed
  then show ?thesis by (simp add: acyclic_heap_iff len)
qed

text \<open>
  Claim C10, as the code has it. \<^verbatim>\<open>addXMLNodeToParent\<close> attaches a child only when the
  child has no parent and no previous or next sibling; in every other case, and with a
  \<^verbatim>\<open>NULL\<close> parent or child, the heap is left unchanged. When it attaches, the child's
  parent becomes the given node, and every node that already had a parent keeps it: a
  node is linked under at most one parent, once. No node becomes its own ancestor
  provided the child is neither the parent itself nor one of the parent's ancestors.
\<close>

theorem addXMLNodeToParent_guarded:
  "((parent = None \<or> child = None \<or>
      (\<exists>c. child = Some c \<and>
         (n_parent (h ! c) \<noteq> None \<or> n_previous (h ! c) \<noteq> None \<or> n_next (h ! c) \<noteq> None)))
     \<longrightarrow> addXMLNodeToParent parent child h = h)
   \<and> (n_parent (h ! c) = None \<longrightarrow> n_previous (h ! c) = None \<longrightarrow> n_next (h ! c) = None \<longrightarrow>
      c < length h \<longrightarrow> p < length h \<longrightarrow>
        n_parent (addXMLNodeToParent (Some p) (Some c) h ! c) = Some p
        \<and> (\<forall>x<length h. n_parent (h ! x) \<noteq> None \<longrightarrow>
              n_parent (addXMLNodeToParent (Some p) (Some c) h ! x) = n_parent (h ! x))
        \<and> (acyclic_heap h \<longrightarrow> ancestors h p = Some as \<longrightarrow> c \<notin> set (p # as) \<longrightarrow>
              acyclic_heap (addXMLNodeToParent (Some p) (Some c) h)))"
proof (intro conjI impI allI)
  assume "parent = None \<or> child = None \<or>
      (\<exists>c. child = Some c \<and>
         (n_parent (h ! c) \<noteq> None \<or> n_previous (h ! c) \<noteq> None \<or> n_next (h ! c) \<noteq> None))"
  then show "addXMLNodeToParent parent child h = h" by (rule addXMLNodeToParent_unchanged)
next
  assume g: "n_parent (h ! c) = None" "n_previous (h ! c) = None" "n_next (h ! c) = None"
    and c: "c < length h" and p: "p < length h"
  from addXMLNodeToParent_parent(1) [OF g c p c]
  show "n_parent (addXMLNodeToParent (Some p) (Some c) h ! c) = Some p" by simp
next
  fix x
  assume g: "n_parent (h ! c) = None" "n_previous (h ! c) = None" "n_next (h ! c) = None"
    and c: "c < length h" and p: "p < length h"
    and x: "x < length h" "n_parent (h ! x) \<noteq> None"
  from x(2) g(1) have "x \<noteq> c" by auto
  with addXMLNodeToParent_parent(1) [OF g c p x(1)]
  show "n_parent (addXMLNodeToParent (Some p) (Some c) h ! x) = n_parent (h ! x)" by simp
next
  assume "acyclic_heap h" "n_parent (h ! c) = None" "n_previous (h ! c) = None"
    "n_next (h ! c) = None" "c < length h" "p < length h" "ancestors h p = Some as"
    "c \<notin> set (p # as)"
  then show "acyclic_heap (addXMLNodeToParent (Some p) (Some c) h)"
    by (rule addXMLNodeToParent_acyclic)
qed

theorem addXMLNodeToParent_guarded_witness:
  "addXMLNodeToParent (Some 0) (Some 1) ab_heap = ab_heap
   \<and> n_parent (addXMLNodeToParent (Some 1) (Some 2) (ab_heap @ [initXMLNode]) ! 2) = Some 1
   \<and> n_parent (addXMLNodeToParent (Some 1) (Some 2) (ab_heap @ [initXMLNode]) ! 1) = Some 0
   \<and> acyclic_heap (addXMLNodeToParent (Some 1) (Some 2) (ab_heap @ [initXMLNode]))"
proof -
  let ?h = "ab_heap @ [initXMLNode]"
  have a: "n_parent (ab_heap ! 1) \<noteq> None" by code_simp
  have g: "n_parent (?h ! 2) = None" "n_previous (?h ! 2) = None" "n_next (?h ! 2) = None"
    "2 < length ?h" "1 < length ?h"
    by code_simp+
  have b: "n_parent (?h ! 1) = Some 0" "acyclic_heap ?h" "ancestors ?h 1 = Some [0]"
    "2 \<notin> set [1, 0::nat]"
    by code_simp+
  from b(1) have b1: "n_parent (?h ! 1) \<noteq> None" by simp
  note t = addXMLNodeToParent_guarded [THEN conjunct2, rule_format, OF g,
      where as = "[0]"]
  from addXMLNodeToParent_guarded [THEN conjunct1, rule_format,
      of "Some 0" "Some 1" ab_heap] a
  have 1: "addXMLNodeToParent (Some 0) (Some 1) ab_heap = ab_heap" by simp
  from t have 2: "n_parent (addXMLNodeToParent (Some 1) (Some 2) ?h ! 2) = Some 1" by simp
  from t g(5) b1 b(1)
  have 3: "n_parent (addXMLNodeToParent (Some 1) (Some 2) ?h ! 1) = Some 0" by simp
  from t b(2,3,4) have 4: "acyclic_heap (addXMLNodeToParent (Some 1) (Some 2) ?h)" by simp
  from 1 2 3 4 show ?thesis by simp
qed

text \<open>
  Claim C10 as stated fails: the guard does not keep a node out of its own ancestors.
  A node without parent or sibling can be attached to itself, and the root of the tree
  parsed from \<^verbatim>\<open><a><b/></a>\<close> can be attached under its own child; in both heaps the
  walk along \<^verbatim>\<open>parent\<close> no longer ends.
\<close>

theorem attached_node_own_ancestor:
  \<open>n_parent ([initXMLNode] ! 0) = None \<and> n_previous ([initXMLNode] ! 0) = None
   \<and> n_next ([initXMLNode] ! 0) = None \<and> acyclic_heap [initXMLNode]
   \<and> n_parent (addXMLNodeToParent (Some 0) (Some 0) [initXMLNode] ! 0) = Some 0
   \<and> \<not> acyclic_heap (addXMLNodeToParent (Some 0) (Some 0) [initXMLNode])
   \<and> fst (parseXMLFile ''<a><b/></a>'') = Inr (ab_heap, 0) \<and> acyclic_heap ab_heap
   \<and> n_parent (ab_heap ! 0) = None \<and> n_previous (ab_heap ! 0) = None
   \<and> n_next (ab_heap ! 0) = None
   \<and> n_parent (addXMLNodeToParent (Some 1) (Some 0) ab_heap ! 0) = Some 1
   \<and> n_parent (addXMLNodeToParent (Some 1) (Some 0) ab_heap ! 1) = Some 0
   \<and> \<not> acyclic_heap (addXMLNodeToParent (Some 1) (Some 0) ab_heap)\<close>
  by code_simp



subsection \<open>Unbalanced input\<close>

lemma skip_value_eq:
  "skip_value fl =
     (case readXMLNodeValue n h fl of (Inl e, f1) \<Rightarrow> None | (Inr h1, f1) \<Rightarrow> Some f1)"
  by (auto simp: skip_value_def readXMLNodeValue_def split: prod.splits sum.splits option.splits)

lemma readXMLNodeValue_parents:
  assumes "readXMLNodeValue n h fl = (Inr h1, f1)"
  shows "length h1 = length h" and "n_parent (h1 ! x) = n_parent (h ! x)"
proof -
  from readXMLNodeValue_heap [OF assms]
  consider "h1 = h" | v where "h1 = h[n := setXMLNodeValue v (h ! n)]" by auto
  note c = this
  from c show "length h1 = length h" by cases simp_all
  from c show "n_parent (h1 ! x) = n_parent (h ! x)"
  proof cases
    case 1
    then show ?thesis by simp
  next
    case (2 v)
    show ?thesis
    proof (cases "n < length h")
      case True
      then show ?thesis by (simp add: 2 nth_list_update setXMLNodeValue_def)
    next
      case False
      then show ?thesis by (simp add: 2 list_update_beyond)
    qed
  qed
qed

lemma child_parents:
  fixes tag :: XML_Tag
  assumes "cur < length h"
  defines "h2 \<equiv> addXMLNodeToParent (Some cur) (Some (length h))
                  (initXMLNodeFromXMLTag (length h) tag (h @ [initXMLNode]))"
  shows "length h2 = Suc (length h)" and "n_parent (h2 ! length h) = Some cur"
    and "x < length h \<Longrightarrow> n_parent (h2 ! x) = n_parent (h ! x)"
proof -
  let ?h1 = "h @ [fresh_node tag]"
  have e: "h2 = addXMLNodeToParent (Some cur) (Some (length h)) ?h1"
    by (simp add: h2_def init_created)
  have g: "n_parent (?h1 ! length h) = None" "n_previous (?h1 ! length h) = None"
    "n_next (?h1 ! length h) = None" "length h < length ?h1" "cur < length ?h1"
    using assms(1) by (simp_all add: fresh_node_links)
  from addXMLNodeToParent_parent(2) [OF g g(4)] show "length h2 = Suc (length h)"
    by (simp add: e)
  from addXMLNodeToParent_parent(1) [OF g g(4)] show "n_parent (h2 ! length h) = Some cur"
    by (simp add: e)
  assume x: "x < length h"
  then have "x < length ?h1" by simp
  from addXMLNodeToParent_parent(1) [OF g this] x
  show "n_parent (h2 ! x) = n_parent (h ! x)" by (simp add: e nth_append)
qed

text \<open>
  The loop of \<^verbatim>\<open>parseXMLFile\<close> ends, and where, exactly as the count of open nodes says:
  the depth of the specification is the number of ancestors of \<^verbatim>\<open>current\<close>.
\<close>

lemma parse_loop_open_tags:
  assumes "current < length h"
    and "chain (\<lambda>a. n_parent (h ! a)) (length h) (n_parent (h ! current)) as"
  shows "snd (open_tags (length as) fl) =
     (case parse_loop current h fl of (Inl e, f') \<Rightarrow> None | (Inr r, f') \<Rightarrow> Some f')"
  using assms
proof (induction current h fl arbitrary: as rule: parse_loop.induct)
  case (1 current h fl)
  obtain rv f1 where rv: "readXMLNodeValue current h fl = (rv, f1)"
    by (cases "readXMLNodeValue current h fl")
  show ?case
  proof (cases rv)
    case (Inl e)
    with rv have "skip_value fl = None" by (simp add: skip_value_eq [of fl current h])
    then have "open_tags (length as) fl = ([], None)" by (subst open_tags.simps) simp
    moreover from rv Inl have "parse_loop current h fl = (Inl e, f1)"
      by (subst parse_loop.simps) simp
    ultimately show ?thesis by simp
  next
    case (Inr h1)
    with rv have rv1: "readXMLNodeValue current h fl = (Inr h1, f1)" by simp
    then have sk: "skip_value fl = Some f1" by (simp add: skip_value_eq [of fl current h])
    note par1 = readXMLNodeValue_parents [OF rv1]
    from "1.prems"(1) par1(1) have cur1: "current < length h1" by simp
    have ch1: "chain (\<lambda>a. n_parent (h1 ! a)) (length h1) (n_parent (h1 ! current)) as"
      using "1.prems"(2) by (simp add: par1)
    obtain rt f2 where rt: "readXMLTag f1 = (rt, f2)" by (cases "readXMLTag f1")
    show ?thesis
    proof (cases rt)
      case (Inl e)
      with sk rt have "open_tags (length as) fl = ([], None)" by (subst open_tags.simps) simp
      moreover from rv1 rt Inl have "parse_loop current h fl =
          (Inl (if e = OutOfBounds then OutOfBounds else UnbalancedTags), f2)"
        by (subst parse_loop.simps) simp
      ultimately show ?thesis by simp
    next
      case (Inr tag)
      with rt have rt1: "readXMLTag f1 = (Inr tag, f2)" by simp
      let ?h2 = "addXMLNodeToParent (Some current) (Some (length h1))
                  (initXMLNodeFromXMLTag (length h1) tag (h1 @ [initXMLNode]))"
      note par2 = child_parents [OF cur1, where tag = tag]
      have cn: "(length h1, h1 @ [initXMLNode]) = createXMLNode h1"
        by (simp add: createXMLNode_def)
      have ch2: "chain (\<lambda>a. n_parent (?h2 ! a)) (length ?h2) (n_parent (h1 ! current)) as"
        using ch1
      proof (rule chain_cong)
        from chain_bounds [OF ch1]
        show "\<forall>x\<in>set as. n_parent (?h2 ! x) = n_parent (h1 ! x)" by (simp add: par2(3))
        show "length h1 \<le> length ?h2" by (simp add: par2(1))
      qed
      consider (op_tag) "t_type tag = OPENING" | (un_tag) "t_type tag = UNIQUE"
        | (cl_tag) "t_type tag = CLOSING" | (uk_tag) "t_type tag = UNKNOWN"
        by (cases "t_type tag") auto
      then show ?thesis
      proof cases
        case op_tag
        have o: "snd (open_tags (length as) fl) = snd (open_tags (Suc (length as)) f2)"
          by (subst open_tags.simps) (simp add: sk rt1 op_tag split: prod.splits)
        have p: "parse_loop current h fl = parse_loop (length h1) ?h2 f2"
          by (subst parse_loop.simps) (simp add: rv1 rt1 op_tag createXMLNode_def)
        have c: "chain (\<lambda>a. n_parent (?h2 ! a)) (length ?h2) (n_parent (?h2 ! length h1))
            (current # as)"
          using ch2 cur1 by (simp add: par2)
        have l: "length h1 < length ?h2" by (simp add: par2(1))
        from "1.IH"(1) [OF rv1 [symmetric] refl rt1 [symmetric] refl op_tag cn l c]
        have "snd (open_tags (Suc (length as)) f2) =
            (case parse_loop (length h1) ?h2 f2 of
               (Inl e, f') \<Rightarrow> None | (Inr r, f') \<Rightarrow> Some f')"
          by simp
        with o p show ?thesis by simp
      next
        case un_tag
        have o: "snd (open_tags (length as) fl) = snd (open_tags (length as) f2)"
          by (subst open_tags.simps) (simp add: sk rt1 un_tag split: prod.splits)
        have p: "parse_loop current h fl = parse_loop current ?h2 f2"
          by (subst parse_loop.simps) (simp add: rv1 rt1 un_tag createXMLNode_def)
        have c: "chain (\<lambda>a. n_parent (?h2 ! a)) (length ?h2) (n_parent (?h2 ! current)) as"
          using ch2 cur1 by (simp add: par2)
        have l: "current < length ?h2" using cur1 by (simp add: par2(1))
        have n: "t_type tag \<noteq> OPENING" using un_tag by simp
        from "1.IH"(2) [OF rv1 [symmetric] refl rt1 [symmetric] refl n un_tag cn l c]
        have "snd (open_tags (length as) f2) =
            (case parse_loop current ?h2 f2 of
               (Inl e, f') \<Rightarrow> None | (Inr r, f') \<Rightarrow> Some f')" .
        with o p show ?thesis by simp
      next
        case cl_tag
        show ?thesis
        proof (cases "n_parent (h1 ! current)")
          case None
          with ch1 have as: "as = []" by (cases as) simp_all
          have "open_tags (length as) fl = ([CLOSING], Some f2)"
            by (subst open_tags.simps) (simp add: sk rt1 cl_tag as)
          moreover have "parse_loop current h fl = (Inr (h1, current), f2)"
            by (subst parse_loop.simps) (simp add: rv1 rt1 cl_tag None)
          ultimately show ?thesis by simp
        next
          case (Some p)
          with ch1 obtain as' where as: "as = p # as'" and p: "p < length h1"
            and ch': "chain (\<lambda>a. n_parent (h1 ! a)) (length h1) (n_parent (h1 ! p)) as'"
            by (cases as) simp_all
          have o: "snd (open_tags (length as) fl) = snd (open_tags (length as') f2)"
            by (subst open_tags.simps) (simp add: sk rt1 cl_tag as split: prod.splits)
          have l: "parse_loop current h fl = parse_loop p h1 f2"
            by (subst parse_loop.simps) (simp add: rv1 rt1 cl_tag Some)
          have n: "t_type tag \<noteq> OPENING" "t_type tag \<noteq> UNIQUE" using cl_tag by simp_all
          from "1.IH"(3) [OF rv1 [symmetric] refl rt1 [symmetric] refl n cl_tag Some p ch']
          have "snd (open_tags (length as') f2) =
            (case parse_loop p h1 f2 of (Inl e, f') \<Rightarrow> None | (Inr r, f') \<Rightarrow> Some f')" .
          with o l show ?thesis by simp
        qed
      next
        case uk_tag
        have o: "snd (open_tags (length as) fl) = snd (open_tags (length as) f2)"
          by (subst open_tags.simps) (simp add: sk rt1 uk_tag split: prod.splits)
        have p: "parse_loop current h fl = parse_loop current h1 f2"
          by (subst parse_loop.simps) (simp add: rv1 rt1 uk_tag)
        have n: "t_type tag \<noteq> OPENING" "t_type tag \<noteq> UNIQUE" "t_type tag \<noteq> CLOSING"
          using uk_tag by simp_all
        from "1.IH"(4) [OF rv1 [symmetric] refl rt1 [symmetric] refl n cur1 ch1]
        have "snd (open_tags (length as) f2) =
            (case parse_loop current h1 f2 of (Inl e, f') \<Rightarrow> None | (Inr r, f') \<Rightarrow> Some f')" .
        with o p show ?thesis by simp
      qed
    qed
  qed
qed

lemma count_Cons:
  "openings (t # ts) = (if t = OPENING then Suc (openings ts) else openings ts)"
  "closings (t # ts) = (if t = CLOSING then Suc (closings ts) else closings ts)"
  "openings [] = 0" "closings [] = 0"
  by (simp_all add: openings_def closings_def)

text \<open>While the root is open, no more nodes have been closed than were opened below
  it; when it is closed, one more.\<close>

lemma open_tags_counts:
  assumes "open_tags d fl = (ts, r)"
  shows "(\<forall>n<length ts. closings (take n ts) \<le> openings (take n ts) + d) \<and>
     (case r of None \<Rightarrow> closings ts \<le> openings ts + d
      | Some f' \<Rightarrow> closings ts = Suc (openings ts + d))"
  using assms
proof (induction d fl arbitrary: ts r rule: open_tags.induct)
  case (1 d fl)
  show ?case
  proof (cases "skip_value fl")
    case None
    with "1.prems" have "ts = []" "r = None" by (subst (asm) open_tags.simps, simp)+
    then show ?thesis by (simp add: count_Cons)
  next
    case (Some f1)
    obtain rt f2 where rt: "readXMLTag f1 = (rt, f2)" by (cases "readXMLTag f1")
    show ?thesis
    proof (cases rt)
      case (Inl e)
      with "1.prems" Some rt have "ts = []" "r = None"
        by (subst (asm) open_tags.simps, simp)+
      then show ?thesis by (simp add: count_Cons)
    next
      case (Inr tag)
      with rt have rt1: "readXMLTag f1 = (Inr tag, f2)" by simp
      have step: "(\<forall>n<length (t # ts'). closings (take n (t # ts'))
                      \<le> openings (take n (t # ts')) + d) \<and>
          (case r of None \<Rightarrow> closings (t # ts') \<le> openings (t # ts') + d
           | Some f' \<Rightarrow> closings (t # ts') = Suc (openings (t # ts') + d))"
        if "(\<forall>n<length ts'. closings (take n ts') \<le> openings (take n ts') + d') \<and>
          (case r of None \<Rightarrow> closings ts' \<le> openings ts' + d'
           | Some f' \<Rightarrow> closings ts' = Suc (openings ts' + d'))"
          and "(if t = OPENING then d' = Suc d else if t = CLOSING then d = Suc d' else d' = d)"
        for t ts' d'
      proof (intro conjI allI impI)
        fix n
        assume n: "n < length (t # ts')"
        show "closings (take n (t # ts')) \<le> openings (take n (t # ts')) + d"
        proof (cases n)
          case 0
          then show ?thesis by (simp add: count_Cons)
        next
          case (Suc m)
          with n have "m < length ts'" by simp
          with that(1) have "closings (take m ts') \<le> openings (take m ts') + d'" by simp
          with that(2) show ?thesis by (auto simp: Suc count_Cons split: if_splits)
        qed
      next
        from that show "case r of None \<Rightarrow> closings (t # ts') \<le> openings (t # ts') + d
           | Some f' \<Rightarrow> closings (t # ts') = Suc (openings (t # ts') + d)"
          by (auto simp: count_Cons split: if_splits option.splits)
      qed
      consider (op_tag) "t_type tag = OPENING" | (cl0) "t_type tag = CLOSING" "d = 0"
        | (cl_tag) d' where "t_type tag = CLOSING" "d = Suc d'"
        | (other) "t_type tag \<noteq> OPENING" "t_type tag \<noteq> CLOSING"
        by (cases d) auto
      then show ?thesis
      proof cases
        case op_tag
        obtain ts' where o: "open_tags (d + 1) f2 = (ts', r)" and e: "ts = OPENING # ts'"
          using "1.prems" Some rt1 op_tag
          by (subst (asm) open_tags.simps) (auto split: prod.splits)
        from "1.IH"(1) [OF Some rt1 [symmetric] refl op_tag o]
        show ?thesis unfolding e by (rule step) simp
      next
        case cl0
        with "1.prems" Some rt1 have "ts = [CLOSING]" "r = Some f2"
          by (subst (asm) open_tags.simps, simp)+
        with cl0(2) show ?thesis by (simp add: count_Cons)
      next
        case (cl_tag d')
        obtain ts' where o: "open_tags d' f2 = (ts', r)" and e: "ts = CLOSING # ts'"
          using "1.prems" Some rt1 cl_tag
          by (subst (asm) open_tags.simps) (auto split: prod.splits)
        have n: "t_type tag \<noteq> OPENING" using cl_tag by simp
        from "1.IH"(2) [OF Some rt1 [symmetric] refl n cl_tag o]
        show ?thesis unfolding e by (rule step) (simp add: cl_tag)
      next
        case other
        obtain ts' where o: "open_tags d f2 = (ts', r)" and e: "ts = t_type tag # ts'"
          using "1.prems" Some rt1 other
          by (subst (asm) open_tags.simps) (auto split: prod.splits)
        from "1.IH"(3) [OF Some rt1 [symmetric] refl other o]
        show ?thesis unfolding e by (rule step) (simp add: other)
      qed
    qed
  qed
qed

lemma document_tags_balanced:
  assumes "document_tags fl = (ts, r)"
  shows "balanced ts \<longleftrightarrow> r \<noteq> None"
proof -
  obtain rt f1 where rt: "readXMLTag fl = (rt, f1)" by (cases "readXMLTag fl")
  show ?thesis
  proof (cases rt)
    case (Inl e)
    with assms rt show ?thesis by (simp add: document_tags_def balanced_def)
  next
    case (Inr tag)
    consider (cl_tag) "t_type tag = CLOSING" | (un_tag) "t_type tag = UNIQUE"
      | (other) "t_type tag \<noteq> CLOSING" "t_type tag \<noteq> UNIQUE"
      by auto
    then show ?thesis
    proof cases
      case cl_tag
      with assms rt Inr show ?thesis
        by (auto simp: document_tags_def balanced_def count_Cons)
    next
      case un_tag
      with assms rt Inr show ?thesis
        by (auto simp: document_tags_def balanced_def count_Cons)
    next
      case other
      obtain ts' where o: "open_tags 0 f1 = (ts', r)" and e: "ts = OPENING # ts'"
        using assms rt Inr other by (auto simp: document_tags_def split: prod.splits)
      note c = open_tags_counts [OF o]
      show ?thesis
      proof (cases r)
        case None
        with c have "closings ts' \<le> openings ts'" by simp
        then show ?thesis by (simp add: None e balanced_def count_Cons)
      next
        case (Some f')
        with c have eq: "closings ts' = Suc (openings ts')" by simp
        have "closings (take n ts) < openings (take n ts)" if "1 \<le> n" "n < length ts" for n
        proof -
          from that obtain m where n: "n = Suc m" by (cases n) auto
          with that(2) e have "m < length ts'" by simp
          with c have "closings (take m ts') \<le> openings (take m ts')" by simp
          then show ?thesis by (simp add: n e count_Cons)
        qed
        with eq show ?thesis by (auto simp: Some e balanced_def count_Cons list_all_iff)
      qed
    qed
  qed
qed

text \<open>\<^verbatim>\<open>parseXMLFile\<close> returns a tree exactly when the root of the document is closed, and
  leaves the stream there.\<close>

lemma parseXMLFile_document_tags:
  "snd (document_tags fl) =
     (case parseXMLFile fl of (Inl e, f') \<Rightarrow> None | (Inr r, f') \<Rightarrow> Some f')"
proof -
  obtain rt f1 where rt: "readXMLTag fl = (rt, f1)" by (cases "readXMLTag fl")
  show ?thesis
  proof (cases rt)
    case (Inl e)
    with rt show ?thesis by (simp add: document_tags_def parseXMLFile_def)
  next
    case (Inr tag)
    with rt have rt1: "readXMLTag fl = (Inr tag, f1)" by simp
    let ?h0 = "initXMLNodeFromXMLTag 0 tag [initXMLNode]"
    have e: "?h0 = [fresh_node tag]" using init_created [of "[]" tag] by simp
    consider (cl_tag) "t_type tag = CLOSING" | (un_tag) "t_type tag = UNIQUE"
      | (other) "t_type tag \<noteq> CLOSING" "t_type tag \<noteq> UNIQUE"
      by auto
    then show ?thesis
    proof cases
      case cl_tag
      with rt1 show ?thesis by (simp add: document_tags_def parseXMLFile_def)
    next
      case un_tag
      with rt1 show ?thesis
        by (simp add: document_tags_def parseXMLFile_def createXMLNode_def)
    next
      case other
      have len: "0 < length ?h0" by (simp add: e)
      have "chain (\<lambda>a. n_parent (?h0 ! a)) (length ?h0) (n_parent (?h0 ! 0)) []"
        by (simp add: e fresh_node_links)
      from parse_loop_open_tags [OF len this, of f1]
      have sim: "snd (open_tags 0 f1) =
          (case parse_loop 0 ?h0 f1 of (Inl e, f') \<Rightarrow> None | (Inr r, f') \<Rightarrow> Some f')"
        by simp
      have d: "snd (document_tags fl) = snd (open_tags 0 f1)"
        using rt1 other by (simp add: document_tags_def split: prod.splits)
      obtain r f2 where l: "parse_loop 0 ?h0 f1 = (r, f2)" by (cases "parse_loop 0 ?h0 f1")
      show ?thesis
      proof (cases r)
        case (Inl e)
        with l rt1 other have "parseXMLFile fl = (Inl e, f2)"
          by (simp add: parseXMLFile_def createXMLNode_def)
        with d sim l Inl show ?thesis by simp
      next
        case (Inr hc)
        obtain h cur where hc: "hc = (h, cur)" by (cases hc)
        from rt1 have "tag_named tag" by (rule readXMLTag_named)
        then have "parse_inv ?h0" by (rule parse_inv_first)
        from parse_loop_ends_at_root [OF this len] l Inr hc have "cur = 0" by simp
        with l Inr hc rt1 other have "parseXMLFile fl = (Inr (h, 0), f2)"
          by (simp add: parseXMLFile_def createXMLNode_def)
        with d sim l Inr show ?thesis by simp
      qed
    qed
  qed
qed

text \<open>
  Claim C6. Parsing \<^verbatim>\<open><a><b></a>\<close> fails with \<open>UnbalancedTags\<close> and returns no tree: of
  its three tags two open a node and one closes one, and the input ends with the root
  open. In general \<^verbatim>\<open>parseXMLFile\<close> returns a tree only when its closing tags exactly
  balance its opening ones: the tags it has read are then balanced, and the stream is
  left after the tag that closes the root; when it returns no tree the tags it has
  read are not balanced (no tag, a first closing tag, or a root never closed). The
  node that is open when the loop ends is always the root, at address 0, so a loop
  that ends gives the tree. Balance is a matter of counting: the name of a closing tag
  is not compared with the name of the node it closes.
\<close>

theorem parseXMLFile_unbalanced:
  \<open>fst (parseXMLFile ''<a><b></a>'') = Inl UnbalancedTags
   \<and> document_tags ''<a><b></a>'' = ([OPENING, OPENING, CLOSING], None)
   \<and> (parseXMLFile file = (Inr (h, root), file') \<longrightarrow> document_tags file = (ts, r) \<longrightarrow>
        r = Some file' \<and> balanced ts \<and> root = 0 \<and> n_parent (h ! root) = None)
   \<and> (parseXMLFile file = (Inl e, file') \<longrightarrow> document_tags file = (ts, r) \<longrightarrow>
        r = None \<and> \<not> balanced ts)
   \<and> (readXMLTag file = (Inr tag, file1) \<longrightarrow> t_type tag \<noteq> UNIQUE \<longrightarrow>
        t_type tag \<noteq> CLOSING \<longrightarrow>
        parse_loop 0 (initXMLNodeFromXMLTag 0 tag [initXMLNode]) file1
          = (Inr (h1, current), file2) \<longrightarrow>
        current = 0 \<and> parseXMLFile file = (Inr (h1, 0), file2))\<close>
proof (intro conjI impI)
  show \<open>fst (parseXMLFile ''<a><b></a>'') = Inl UnbalancedTags\<close> by code_simp
  show \<open>document_tags ''<a><b></a>'' = ([OPENING, OPENING, CLOSING], None)\<close> by code_simp
next
  assume p: "parseXMLFile file = (Inr (h, root), file')" and d: "document_tags file = (ts, r)"
  from parseXMLFile_document_tags [of "file"] p d show r: "r = Some file'" by simp
  with document_tags_balanced [OF d] show "balanced ts" by simp
  from parseXMLFile_parse_inv [OF p] show "root = 0" by simp
  from parseXMLFile_parse_inv [OF p] show "n_parent (h ! root) = None" by simp
next
  assume p: "parseXMLFile file = (Inl e, file')" and d: "document_tags file = (ts, r)"
  from parseXMLFile_document_tags [of "file"] p d show r: "r = None" by simp
  with document_tags_balanced [OF d] show "\<not> balanced ts" by simp
next
  assume rt: "readXMLTag file = (Inr tag, file1)"
    and ty: "t_type tag \<noteq> UNIQUE" "t_type tag \<noteq> CLOSING"
    and l: "parse_loop 0 (initXMLNodeFromXMLTag 0 tag [initXMLNode]) file1
          = (Inr (h1, current), file2)"
  from rt have "tag_named tag" by (rule readXMLTag_named)
  then have inv: "parse_inv (initXMLNodeFromXMLTag 0 tag [initXMLNode])"
    by (rule parse_inv_first)
  have len: "0 < length (initXMLNodeFromXMLTag 0 tag [initXMLNode])"
    using init_created [of "[]" tag] by simp
  from parse_loop_ends_at_root [OF inv len l] show c: "current = 0" .
  with rt ty l show "parseXMLFile file = (Inr (h1, 0), file2)"
    by (simp add: parseXMLFile_def createXMLNode_def)
qed

theorem parseXMLFile_unbalanced_witness:
  \<open>(\<exists>h. parseXMLFile ''<a><b>x</b><c/></a>'' = (Inr (h, 0), []) \<and> n_parent (h ! 0) = None)
   \<and> document_tags ''<a><b>x</b><c/></a>''
        = ([OPENING, OPENING, CLOSING, UNIQUE, CLOSING], Some [])
   \<and> balanced [OPENING, OPENING, CLOSING, UNIQUE, CLOSING]
   \<and> parseXMLFile ''<a><b/x></a>'' = (Inl UnbalancedTags, ''></a>'')
   \<and> document_tags ''<a><b/x></a>'' = ([OPENING], None)
   \<and> \<not> balanced [OPENING]
   \<and> (\<exists>h. parse_loop 0
          (initXMLNodeFromXMLTag 0 \<lparr>t_name = Some ''a'', t_attr = None, t_type = OPENING\<rparr>
             [initXMLNode]) ''<b>x</b><c/></a>'' = (Inr (h, 0), []))\<close>
proof -
  let ?F = \<open>''<a><b>x</b><c/></a>''\<close>
  let ?G = \<open>''<a><b/x></a>''\<close>
  let ?tag = "\<lparr>t_name = Some ''a'', t_attr = None, t_type = OPENING\<rparr>"
  let ?l = \<open>parse_loop 0 (initXMLNodeFromXMLTag 0 ?tag [initXMLNode]) ''<b>x</b><c/></a>''\<close>
  have "\<not> isl (fst (parseXMLFile ?F))" "snd (parseXMLFile ?F) = []" by code_simp+
  then obtain h root where p: "parseXMLFile ?F = (Inr (h, root), [])"
    by (cases "parseXMLFile ?F"; cases "fst (parseXMLFile ?F)") auto
  have d: "document_tags ?F = ([OPENING, OPENING, CLOSING, UNIQUE, CLOSING], Some [])"
    by code_simp
  have q: "parseXMLFile ?G = (Inl UnbalancedTags, ''></a>'')" by code_simp
  have dq: "document_tags ?G = ([OPENING], None)" by code_simp
  have rt: "readXMLTag ?F = (Inr ?tag, ''<b>x</b><c/></a>'')" by code_simp
  have ty: "t_type ?tag \<noteq> UNIQUE" "t_type ?tag \<noteq> CLOSING" by simp_all
  have "\<not> isl (fst ?l)" "snd ?l = []" by code_simp+
  then obtain h1 current where l: "?l = (Inr (h1, current), [])"
    by (cases ?l; cases "fst ?l") auto
  note t = parseXMLFile_unbalanced [THEN conjunct2, THEN conjunct2]
  from t [THEN conjunct1, rule_format, OF p d]
  have 1: "balanced [OPENING, OPENING, CLOSING, UNIQUE, CLOSING]" "root = 0"
    "n_parent (h ! 0) = None"
    by auto
  from t [THEN conjunct2, THEN conjunct1, rule_format, OF q dq]
  have 2: "\<not> balanced [OPENING]" by simp
  from t [THEN conjunct2, THEN conjunct2, rule_format, OF rt ty l]
  have 3: "current = 0" by simp
  from p 1 have "\<exists>h. parseXMLFile ?F = (Inr (h, 0), []) \<and> n_parent (h ! 0) = None" by auto
  moreover from l 3 have "\<exists>h. ?l = (Inr (h, 0), [])" by auto
  ultimately show ?thesis using d 1(1) q dq 2 by simp
qed

end
